theory Spec2Isabelle
  imports Complex_Main "HOL-Library.Word" "HOL-Library.Sublist"
begin


section \<open>The audio worklet: accumulator, resampler and framer\<close>

text \<open>
  The class \<^verbatim>\<open>AudioProcessor\<close> of \<^verbatim>\<open>src/index.tsx\<close> (the worklet source embedded in
  \<^verbatim>\<open>initializeAudioSystem\<close>). The worklet globals \<^verbatim>\<open>sampleRate\<close> and \<^verbatim>\<open>currentTime\<close> are
  arguments.
\<close>

subsection \<open>Floating-point arithmetic\<close>

text \<open>
  JavaScript numbers are IEEE 754 doubles. A finite double is modelled by the real number
  it denotes, and an arithmetic operation of the source by the exact result rounded to the
  nearest double, ties to the even significand (\<open>float64\<close>). A store into a
  \<^verbatim>\<open>Float32Array\<close> rounds the same way to single precision (\<open>float32\<close>). NaN, the
  infinities and the sign of zero are not represented: a result beyond the largest finite
  number is left as the rounded real. Counters, lengths and \<^verbatim>\<open>K + 1\<close> are integers far below
  \<open>2 ^ 53\<close>, where double arithmetic is exact; they are natural numbers and integers here.
\<close>

text \<open>Rounding to the nearest integer, a tie going to the even one.\<close>

definition round_half_even :: "real \<Rightarrow> int" where
  "round_half_even x =
     (let f = \<lfloor>x\<rfloor>; d = x - real_of_int f
      in if d < 1 / 2 then f
         else if 1 / 2 < d then f + 1
         else if even f then f else f + 1)"

text \<open>
  The binary exponent of a positive number: \<open>binade n x = e\<close> with \<open>2 ^ e \<le> x < 2 ^ (e + 1)\<close>,
  found by halving or doubling \<open>x\<close> at most \<open>n\<close> times.
\<close>

primrec binade :: "nat \<Rightarrow> real \<Rightarrow> int" where
  "binade 0 x = 0"
| "binade (Suc n) x =
     (if 2 \<le> x then binade n (x / 2) + 1
      else if x < 1 then binade n (x * 2) - 1
      else 0)"

text \<open>
  Rounding to a binary format of \<open>p\<close> significant bits whose smallest normal exponent is
  \<open>emin\<close>: the spacing of the format's numbers around \<open>x\<close> is \<open>2 ^ (e - p + 1)\<close> with \<open>e\<close>
  the exponent of \<open>x\<close>, or \<open>emin\<close> when \<open>x\<close> is subnormal, and \<open>x\<close> goes to the nearest
  multiple of it. The 1100 steps of the exponent search reach below the smallest
  subnormal double \<open>2 ^ - 1074\<close> and above the largest double.
\<close>

definition ieee_round :: "nat \<Rightarrow> int \<Rightarrow> real \<Rightarrow> real" where
  "ieee_round p emin x =
     (if x = 0 then 0
      else let e = max (binade 1100 \<bar>x\<bar>) emin;
               u = 2 powi (e - int p + 1)
           in real_of_int (round_half_even (x / u)) * u)"

definition float64 :: "real \<Rightarrow> real" where
  "float64 = ieee_round 53 (- 1022)"

definition float32 :: "real \<Rightarrow> real" where
  "float32 = ieee_round 24 (- 126)"

text \<open>
  The elements of a \<^verbatim>\<open>Float32Array\<close> are single-precision numbers: rounding leaves them
  unchanged.
\<close>

definition float32_values :: "real list \<Rightarrow> bool" where
  "float32_values xs = list_all (\<lambda>x. float32 x = x) xs"

subsection \<open>The processor\<close>

record audio_processor =
  sampleRate :: real
  targetSampleRate :: real
  bufferSize :: nat
  internalBuffer :: "real list"
  internalBufferIndex :: nat
  isProcessing :: bool
  lastSendTime :: real
  resampleRatio :: real

definition MAX_BUFFER_AGE_SECONDS :: real where
  "MAX_BUFFER_AGE_SECONDS = 1 / 2"

text \<open>\<^verbatim>\<open>a || b\<close> on numbers: the default \<open>b\<close> replaces a falsy (zero) option.\<close>

definition js_or :: "'a::zero \<Rightarrow> 'a \<Rightarrow> 'a" where
  "js_or a b = (if a = 0 then b else a)"

text \<open>
  The constructor, from the native rate, the two processor options and the current time.
  The debug message it posts is left out.
\<close>

definition new_AudioProcessor :: "real \<Rightarrow> real \<Rightarrow> nat \<Rightarrow> real \<Rightarrow> audio_processor" where
  "new_AudioProcessor nativeRate targetOpt sizeOpt now =
     (let tsr = js_or targetOpt 16000;
          bs = js_or sizeOpt 4096;
          minInternalBufferSize = \<lceil>float64 (real bs * float64 (nativeRate / tsr))\<rceil> + 128
      in \<lparr> sampleRate = nativeRate,
           targetSampleRate = tsr,
           bufferSize = bs,
           internalBuffer = replicate (nat (max minInternalBufferSize (int bs * 2))) 0,
           internalBufferIndex = 0,
           isProcessing = False,
           lastSendTime = now,
           resampleRatio = float64 (nativeRate / tsr) \<rparr>)"

text \<open>
  What the processor posts on its port: the two debug notes of \<^verbatim>\<open>sendResampledBuffer\<close>
  (the text is not modelled, the numbers it prints are) and the PCM frame, an
  \<^verbatim>\<open>Int16Array\<close>, as a list of integers.
\<close>

datatype port_message =
    DebugEmptyOutput
  | DebugPosting nat int
  | PcmData "int list"

text \<open>
  Storing a number into an \<^verbatim>\<open>Int16Array\<close> element converts it with ToInt16: the fraction
  is cut off (towards zero), the integer is taken modulo \<open>2 ^ 16\<close> and read as two's
  complement.
\<close>

definition truncate_toward_zero :: "real \<Rightarrow> int" where
  "truncate_toward_zero x = (if 0 \<le> x then \<lfloor>x\<rfloor> else \<lceil>x\<rceil>)"

definition toInt16 :: "real \<Rightarrow> int" where
  "toInt16 x =
     (let m = truncate_toward_zero x mod 65536
      in if 32768 \<le> m then m - 65536 else m)"

text \<open>\<^verbatim>\<open>Math.max(-1, Math.min(1, s))\<close>\<close>

definition clamp_sample :: "real \<Rightarrow> real" where
  "clamp_sample s = max (- 1) (min 1 s)"

text \<open>
  \<^verbatim>\<open>pcmData[i] = sample * 32767\<close> with \<^verbatim>\<open>sample\<close> the clamped value. The sample is read from
  a \<^verbatim>\<open>Float32Array\<close>, so it has at most 24 significant bits and its product with 32767
  at most 39: the double multiplication is exact (lemma \<open>quantize_product_exact\<close>).
\<close>

definition quantize :: "real \<Rightarrow> int" where
  "quantize s = toInt16 (clamp_sample s * 32767)"

text \<open>
  The interpolation loop of \<^verbatim>\<open>sendResampledBuffer\<close>. \<open>i\<close> is the loop counter, \<open>out\<close>
  the filled part of \<^verbatim>\<open>outputBuffer\<close> (its length is \<^verbatim>\<open>outputIndex\<close>) and \<open>consumed\<close> is
  \<^verbatim>\<open>consumedInputSamples\<close>. The result is \<^verbatim>\<open>finalOutputBuffer\<close> and the consumed count.
  Every product, sum and difference is a double operation, and the assignment to
  \<^verbatim>\<open>outputBuffer[outputIndex++]\<close>, a \<^verbatim>\<open>Float32Array\<close> element, rounds to single precision.
  Reads of the accumulator are below \<^verbatim>\<open>_internalBufferIndex\<close>, hence inside the array
  whenever the index does not exceed its length.
\<close>

function resample_loop ::
  "audio_processor \<Rightarrow> nat \<Rightarrow> real list \<Rightarrow> int \<Rightarrow> real list \<times> int" where
  "resample_loop w i out consumed =
     (if i < bufferSize w then
        (let P = float64 (real i * resampleRatio w);
             K = \<lfloor>P\<rfloor>;
             T = float64 (P - real_of_int K)
         in if K + 1 < int (internalBufferIndex w) then
              resample_loop w (i + 1)
                (out @ [float32
                          (float64 (float64 (internalBuffer w ! nat K * float64 (1 - T))
                                    + float64 (internalBuffer w ! nat (K + 1) * T)))])
                (K + 1)
            else if K < int (internalBufferIndex w) then
              resample_loop w (i + 1) (out @ [float32 (internalBuffer w ! nat K)]) (K + 1)
            else (out, consumed))
      else (out, consumed))"
  by pat_completeness auto
termination
  by (relation "measure (\<lambda>(w, i, out, consumed). bufferSize w - i)") auto

declare resample_loop.simps [simp del]

text \<open>
  \<^verbatim>\<open>copyWithin(0, start, end)\<close>: the elements from \<open>start\<close> up to \<open>end\<close> (both clipped
  to the array) are copied to the front; the array keeps its length.
\<close>

definition copyWithin0 :: "real list \<Rightarrow> nat \<Rightarrow> nat \<Rightarrow> real list" where
  "copyWithin0 buf start fin =
     (let seg = take (fin - start) (drop start buf)
      in seg @ drop (length seg) buf)"

definition sendResampledBuffer ::
  "audio_processor \<Rightarrow> real \<Rightarrow> port_message list \<times> audio_processor" where
  "sendResampledBuffer w now =
     (if internalBufferIndex w = 0 \<or> isProcessing w then ([], w)
      else
        let w1 = w\<lparr>isProcessing := True, lastSendTime := now\<rparr>;
            (finalOutputBuffer, consumedInputSamples) = resample_loop w1 0 [] 0
        in if length finalOutputBuffer = 0 then
             ([DebugEmptyOutput], w1\<lparr>isProcessing := False\<rparr>)
           else
             let pcmData = map quantize finalOutputBuffer;
                 posted = [DebugPosting (length pcmData) consumedInputSamples, PcmData pcmData];
                 w2 = (if 0 < consumedInputSamples
                          \<and> consumedInputSamples \<le> int (internalBufferIndex w1)
                       then w1\<lparr>internalBuffer :=
                                  copyWithin0 (internalBuffer w1) (nat consumedInputSamples)
                                    (internalBufferIndex w1),
                                internalBufferIndex :=
                                  internalBufferIndex w1 - nat consumedInputSamples\<rparr>
                       else w1\<lparr>internalBufferIndex := 0\<rparr>)
             in (posted, w2\<lparr>isProcessing := False\<rparr>))"

text \<open>
  \<^verbatim>\<open>TypedArray.prototype.set(source, offset)\<close> throws a RangeError when the source does
  not fit behind the offset; \<open>None\<close> is that exception.
\<close>

definition typed_array_set :: "real list \<Rightarrow> real list \<Rightarrow> nat \<Rightarrow> real list option" where
  "typed_array_set target source offset =
     (if offset + length source \<le> length target
      then Some (take offset target @ source @ drop (offset + length source) target)
      else None)"

text \<open>The first statement of \<^verbatim>\<open>process\<close>: the input block goes into the accumulator.\<close>

definition store_input :: "audio_processor \<Rightarrow> real list \<Rightarrow> audio_processor option" where
  "store_input w inputChannel =
     (if internalBufferIndex w + length inputChannel \<le> length (internalBuffer w) then
        map_option
          (\<lambda>b. w\<lparr>internalBuffer := b,
                 internalBufferIndex := internalBufferIndex w + length inputChannel\<rparr>)
          (typed_array_set (internalBuffer w) inputChannel (internalBufferIndex w))
      else
        let remainingSpace = int (length (internalBuffer w)) - int (internalBufferIndex w)
        in if 0 < remainingSpace then
             map_option
               (\<lambda>b. w\<lparr>internalBuffer := b,
                      internalBufferIndex := internalBufferIndex w + nat remainingSpace\<rparr>)
               (typed_array_set (internalBuffer w)
                  (take (nat remainingSpace) inputChannel) (internalBufferIndex w))
           else Some w)"

text \<open>
  The two emission triggers and the call of \<^verbatim>\<open>sendResampledBuffer\<close>, the rest of
  \<^verbatim>\<open>process\<close>.
\<close>

definition emit_if_due :: "audio_processor \<Rightarrow> real \<Rightarrow> port_message list \<times> audio_processor" where
  "emit_if_due w now =
     (let minInputSamplesForOneOutputBuffer =
            \<lfloor>float64 (real (bufferSize w) * resampleRatio w)\<rfloor>;
          shouldSendByTime =
            (MAX_BUFFER_AGE_SECONDS < float64 (now - lastSendTime w)
             \<and> 0 < internalBufferIndex w);
          shouldSendByFill =
            (minInputSamplesForOneOutputBuffer \<le> int (internalBufferIndex w))
      in if (shouldSendByFill \<or> shouldSendByTime) \<and> \<not> isProcessing w
         then sendResampledBuffer w now
         else ([], w))"

text \<open>
  \<^verbatim>\<open>process(inputs, outputs, parameters)\<close>. \<open>inputChannel\<close> is \<^verbatim>\<open>inputs[0] && inputs[0][0]\<close>,
  \<open>None\<close> when there is no such channel. The result is the returned flag (always
  \<^verbatim>\<open>true\<close>: keep the processor alive), the messages posted and the new state; \<open>None\<close>
  when the call ends in an exception.
\<close>

definition process ::
  "audio_processor \<Rightarrow> real \<Rightarrow> real list option
     \<Rightarrow> (bool \<times> port_message list \<times> audio_processor) option" where
  "process w now inputChannel =
     (case (case inputChannel of
              None \<Rightarrow> Some w
            | Some ch \<Rightarrow> if 0 < length ch then store_input w ch else Some w) of
        None \<Rightarrow> None
      | Some w1 \<Rightarrow> (let (posted, w2) = emit_if_due w1 now in Some (True, posted, w2)))"

text \<open>
  The audio thread calls \<^verbatim>\<open>process\<close> once per render quantum. A run is the list of the
  calls' current times and input channels; it yields everything posted and the last state.
  A call that throws ends the run (the processor is then no longer called).
\<close>

fun run_process ::
  "audio_processor \<Rightarrow> (real \<times> real list option) list \<Rightarrow> port_message list \<times> audio_processor" where
  "run_process w [] = ([], w)"
| "run_process w ((now, inputChannel) # calls) =
     (case process w now inputChannel of
        None \<Rightarrow> ([], w)
      | Some (alive, posted, w1) \<Rightarrow>
          (let (later, w2) = run_process w1 calls in (posted @ later, w2)))"

text \<open>
  The float frame a call of \<^verbatim>\<open>sendResampledBuffer\<close> computes from the accumulator
  (\<^verbatim>\<open>finalOutputBuffer\<close>), and the number of input samples it consumes.
\<close>

definition resampled_frame :: "audio_processor \<Rightarrow> real list" where
  "resampled_frame w = fst (resample_loop w 0 [] 0)"

definition consumed_input :: "audio_processor \<Rightarrow> int" where
  "consumed_input w = snd (resample_loop w 0 [] 0)"

text \<open>
  The state the constructor builds and every call of \<^verbatim>\<open>process\<close> keeps: the write index
  is inside the accumulator, the frame size is positive, the ratio is not negative, a full
  accumulator reaches the fill trigger, and no emission is in flight between two calls.
\<close>

definition worklet_inv :: "audio_processor \<Rightarrow> bool" where
  "worklet_inv w \<longleftrightarrow>
     internalBufferIndex w \<le> length (internalBuffer w)
     \<and> 0 < length (internalBuffer w)
     \<and> 0 < bufferSize w
     \<and> 0 \<le> resampleRatio w
     \<and> \<lfloor>float64 (real (bufferSize w) * resampleRatio w)\<rfloor> \<le> int (length (internalBuffer w))
     \<and> \<not> isProcessing w"

text \<open>
  One output sample as the specification words it, in exact arithmetic: with
  \<open>P = i * ratio\<close>, \<open>K = floor P\<close> and \<open>T = P - K\<close>, the interpolation of \<open>buffer[K]\<close> and
  \<open>buffer[K+1]\<close> when \<open>K + 1\<close> is inside the filled region, \<open>buffer[K]\<close> when only \<open>K\<close> is,
  and no sample otherwise (the frame stops there).
\<close>

definition spec_output_sample :: "real list \<Rightarrow> nat \<Rightarrow> real \<Rightarrow> nat \<Rightarrow> real option" where
  "spec_output_sample buffer filled ratio i =
     (let P = real i * ratio;
          K = \<lfloor>P\<rfloor>;
          T = P - real_of_int K
      in if K + 1 < int filled
         then Some (buffer ! nat K * (1 - T) + buffer ! nat (K + 1) * T)
         else if K < int filled then Some (buffer ! nat K)
         else None)"

text \<open>
  The same sample in the arithmetic of the machine: the position, the fraction and the
  interpolation are computed in doubles, one rounding for each operation, and the sample
  is rounded to single precision when it is stored.
\<close>

definition stored_output_sample :: "real list \<Rightarrow> nat \<Rightarrow> real \<Rightarrow> nat \<Rightarrow> real option" where
  "stored_output_sample buffer filled ratio i =
     (let P = float64 (real i * ratio);
          K = \<lfloor>P\<rfloor>;
          T = float64 (P - real_of_int K)
      in if K + 1 < int filled
         then Some (float32 (float64 (float64 (buffer ! nat K * float64 (1 - T))
                                      + float64 (buffer ! nat (K + 1) * T))))
         else if K < int filled then Some (float32 (buffer ! nat K))
         else None)"

text \<open>
  The quantisation as the specification words it: the clamped sample times 32767, rounded
  to the nearest integer.
\<close>

definition quantize_round :: "real \<Rightarrow> int" where
  "quantize_round s = round (clamp_sample s * 32767)"

text \<open>
  A processor for a native rate of 24 kHz with frames of four samples, and the state after
  four samples arrived: the accumulator holds less than one full frame's input.
\<close>

definition example_processor :: audio_processor where
  "example_processor = new_AudioProcessor 24000 16000 4 0"

definition example_filled :: audio_processor where
  "example_filled =
     example_processor\<lparr>internalBuffer := [0, 1 / 2, 1, 1 / 2] @ replicate 130 0,
                        internalBufferIndex := 4\<rparr>"

text \<open>
  A processor whose native rate is the target rate, with frames of one sample, after the
  sample \<open>1/4\<close> arrived.
\<close>

definition example_quarter :: audio_processor where
  "example_quarter =
     (new_AudioProcessor 16000 16000 1 0)\<lparr>internalBuffer := [1 / 4] @ replicate 128 0,
                                           internalBufferIndex := 1\<rparr>"

text \<open>
  The 24 kHz processor after a block of four single-precision samples whose two middle
  ones are neighbours in single precision: their mean lies half-way between them and is
  not a single-precision number.
\<close>

definition tie_block :: "real list" where
  "tie_block = [0, 32769 / 2 ^ 30, 8388865 / 2 ^ 38, 0]"

definition example_tie :: audio_processor where
  "example_tie =
     example_processor\<lparr>internalBuffer := tie_block @ replicate 130 0,
                        internalBufferIndex := 4\<rparr>"

section \<open>Base64 at the transport boundary\<close>

text \<open>
  \<^verbatim>\<open>arrayBufferToBase64\<close> and \<^verbatim>\<open>base64ToArrayBuffer\<close> of \<^verbatim>\<open>src/index.tsx\<close>. An
  \<^verbatim>\<open>ArrayBuffer\<close> is a list of bytes, a JavaScript binary string the list of its code units,
  a base64 text a \<open>string\<close>. \<^verbatim>\<open>window.btoa\<close> and \<^verbatim>\<open>window.atob\<close> are the browser's: they are
  written out here as the HTML standard defines them (forgiving-base64 encode and decode,
  over the alphabet of RFC 4648), with the exception they throw as a value.
\<close>

type_synonym byte = "8 word"

datatype dom_exception = InvalidCharacterError

definition base64_alphabet :: string where
  "base64_alphabet = ''ABCDEFGHIJKLMNOPQRSTUVWXYZabcdefghijklmnopqrstuvwxyz0123456789+/''"

definition base64_char :: "nat \<Rightarrow> char" where
  "base64_char n = base64_alphabet ! n"

fun index_of :: "'a \<Rightarrow> 'a list \<Rightarrow> nat option" where
  "index_of x [] = None"
| "index_of x (y # ys) = (if x = y then Some 0 else map_option Suc (index_of x ys))"

definition base64_value :: "char \<Rightarrow> nat option" where
  "base64_value c = index_of c base64_alphabet"

text \<open>
  Three octets become four characters of six bits each; a last group of one or two octets
  is filled with zero bits and padded with \<open>=\<close>.
\<close>

fun encode_octets :: "nat list \<Rightarrow> string" where
  "encode_octets (a # b # c # rest) =
     [base64_char (a div 4), base64_char ((a mod 4) * 16 + b div 16),
      base64_char ((b mod 16) * 4 + c div 64), base64_char (c mod 64)] @ encode_octets rest"
| "encode_octets [a, b] =
     [base64_char (a div 4), base64_char ((a mod 4) * 16 + b div 16),
      base64_char ((b mod 16) * 4), CHR ''='']"
| "encode_octets [a] =
     [base64_char (a div 4), base64_char ((a mod 4) * 16), CHR ''='', CHR ''='']"
| "encode_octets [] = []"

text \<open>\<^verbatim>\<open>btoa\<close> refuses a string with a code unit above 255.\<close>

definition btoa :: "nat list \<Rightarrow> dom_exception + string" where
  "btoa s = (if list_ex (\<lambda>c. 255 < c) s then Inl InvalidCharacterError
             else Inr (encode_octets s))"

definition is_ascii_whitespace :: "char \<Rightarrow> bool" where
  "is_ascii_whitespace c \<longleftrightarrow> c \<in> set [CHR 0x09, CHR 0x0A, CHR 0x0C, CHR 0x0D, CHR 0x20]"

text \<open>
  When the length is a multiple of four, one or two \<open>=\<close> at the end are removed.
\<close>

definition strip_padding :: "string \<Rightarrow> string" where
  "strip_padding d =
     (if length d mod 4 = 0 then
        (case rev d of
           c1 # c2 # r \<Rightarrow>
             if c1 = CHR ''='' \<and> c2 = CHR ''='' then rev r
             else if c1 = CHR ''='' then rev (c2 # r)
             else d
         | _ \<Rightarrow> d)
      else d)"

text \<open>
  Four characters give three octets; two or three characters left at the end give one or
  two octets, the bits left over are dropped.
\<close>

fun decode_sextets :: "nat list \<Rightarrow> nat list" where
  "decode_sextets (s1 # s2 # s3 # s4 # rest) =
     [s1 * 4 + s2 div 16, (s2 mod 16) * 16 + s3 div 4, (s3 mod 4) * 64 + s4]
       @ decode_sextets rest"
| "decode_sextets [s1, s2, s3] = [s1 * 4 + s2 div 16, (s2 mod 16) * 16 + s3 div 4]"
| "decode_sextets [s1, s2] = [s1 * 4 + s2 div 16]"
| "decode_sextets [s1] = []"
| "decode_sextets [] = []"

definition atob :: "string \<Rightarrow> dom_exception + nat list" where
  "atob data =
     (let d = strip_padding (filter (\<lambda>c. \<not> is_ascii_whitespace c) data)
      in if length d mod 4 = 1 then Inl InvalidCharacterError
         else (case those (map base64_value d) of
                 None \<Rightarrow> Inl InvalidCharacterError
               | Some values \<Rightarrow> Inr (decode_sextets values)))"

text \<open>
  \<^verbatim>\<open>arrayBufferToBase64\<close>: the loop appends \<^verbatim>\<open>String.fromCharCode(bytes[i])\<close> for every byte,
  \<^verbatim>\<open>btoa\<close> encodes the string.
\<close>

definition arrayBufferToBase64 :: "byte list \<Rightarrow> dom_exception + string" where
  "arrayBufferToBase64 buffer = btoa (map unat buffer)"

text \<open>
  \<^verbatim>\<open>base64ToArrayBuffer\<close>: \<^verbatim>\<open>atob\<close> decodes, the loop stores \<^verbatim>\<open>charCodeAt(i)\<close> into a
  \<^verbatim>\<open>Uint8Array\<close> (a store keeps the low eight bits).
\<close>

definition base64ToArrayBuffer :: "string \<Rightarrow> dom_exception + byte list" where
  "base64ToArrayBuffer base64 =
     (case atob base64 of
        Inl e \<Rightarrow> Inl e
      | Inr binaryString \<Rightarrow> Inr (map (\<lambda>c. (of_nat c :: byte)) binaryString))"

text \<open>
  For the proofs: the six-bit values of an encoding without its padding, and the padding.
\<close>

fun sextets :: "nat list \<Rightarrow> nat list" where
  "sextets (a # b # c # rest) =
     [a div 4, (a mod 4) * 16 + b div 16, (b mod 16) * 4 + c div 64, c mod 64] @ sextets rest"
| "sextets [a, b] = [a div 4, (a mod 4) * 16 + b div 16, (b mod 16) * 4]"
| "sextets [a] = [a div 4, (a mod 4) * 16]"
| "sextets [] = []"

fun padding :: "nat list \<Rightarrow> string" where
  "padding (a # b # c # rest) = padding rest"
| "padding [a, b] = ''=''"
| "padding [a] = ''==''"
| "padding [] = []"

section \<open>The application: attachment, session, recording and playback\<close>

text \<open>
  The class \<^verbatim>\<open>GeminiLiveVoiceApp\<close> of \<^verbatim>\<open>src/index.tsx\<close>. Its fields keep their names; an
  object reference is modelled by what the code tests of it: the session by an identifier
  (\<open>None\<close> is \<^verbatim>\<open>null\<close>), the audio context and the three audio nodes by whether they exist.
  Of the page only the status line is kept (its text and whether it is shown as an error):
  \<^verbatim>\<open>cleanupAfterErrorOrClose\<close> reads it back. The record button and the preview are written
  but never read by the code and are left out.

  The rest of the record is the environment the code acts on: the intervals the window
  holds, what was handed to \<^verbatim>\<open>session.sendRealtimeInput\<close> and to which session, the sessions
  closed, the buffer sources started and those still playing, and the asynchronous calls
  that have not settled yet (\<^verbatim>\<open>live.connect\<close>, \<^verbatim>\<open>getUserMedia\<close>, and the
  \<^verbatim>\<open>initializeAudioSystem\<close> a playback waits for, with the buffer it holds).
\<close>

record blob =
  data :: string
  mimeType :: string

record voice_app =
  currentImageBase64 :: "string option"
  currentImageMimeType :: "string option"
  session :: "nat option"
  isRecording :: bool
  audioContext :: bool
  micStream :: bool
  micSourceNode :: bool
  audioWorkletNode :: bool
  audioQueue :: "byte list list"
  isPlayingAudio :: bool
  isSetupComplete :: bool
  imageSendIntervalId :: "nat option"
  statusText :: string
  statusIsError :: bool
  intervals :: "nat list"
  lastIntervalHandle :: nat
  sentInput :: "(nat \<times> blob) list"
  closedSessions :: "nat list"
  startedSources :: "byte list list"
  playingSources :: "byte list list"
  pendingConnects :: nat
  pendingMicRequests :: nat
  pendingPlayback :: "byte list list"

definition TARGET_SAMPLE_RATE :: nat where
  "TARGET_SAMPLE_RATE = 16000"

subsection \<open>JavaScript strings and truthiness\<close>

text \<open>A string or \<^verbatim>\<open>null\<close> is truthy when it is a non-empty string.\<close>

definition truthy_string :: "string option \<Rightarrow> bool" where
  "truthy_string v = (case v of None \<Rightarrow> False | Some s \<Rightarrow> s \<noteq> [])"

text \<open>A number or \<^verbatim>\<open>null\<close> is truthy when it is a number other than zero.\<close>

definition truthy_number :: "nat option \<Rightarrow> bool" where
  "truthy_number v = (case v of None \<Rightarrow> False | Some n \<Rightarrow> n \<noteq> 0)"

text \<open>The value read from a field that was just tested to be truthy.\<close>

definition option_or :: "'a \<Rightarrow> 'a option \<Rightarrow> 'a" where
  "option_or d v = (case v of None \<Rightarrow> d | Some x \<Rightarrow> x)"

text \<open>
  \<^verbatim>\<open>toLowerCase\<close> on the letters A to Z. Characters here are eight bits wide, and no other
  eight-bit character is lowered to a letter, so searching the lowered text for a word of
  plain letters gives what JavaScript gives.
\<close>

definition lower_char :: "char \<Rightarrow> char" where
  "lower_char c =
     (case index_of c ''ABCDEFGHIJKLMNOPQRSTUVWXYZ'' of
        None \<Rightarrow> c
      | Some i \<Rightarrow> ''abcdefghijklmnopqrstuvwxyz'' ! i)"

definition toLowerCase :: "string \<Rightarrow> string" where
  "toLowerCase s = map lower_char s"

text \<open>\<^verbatim>\<open>String.prototype.includes\<close>\<close>

fun includes_string :: "string \<Rightarrow> string \<Rightarrow> bool" where
  "includes_string [] needle = (needle = [])"
| "includes_string (c # cs) needle = (prefix needle (c # cs) \<or> includes_string cs needle)"

text \<open>\<^verbatim>\<open>s.substring(s.indexOf(',') + 1)\<close>: the whole string when it has no comma.\<close>

definition after_first_comma :: "string \<Rightarrow> string" where
  "after_first_comma s =
     (if CHR '','' \<in> set s then drop 1 (dropWhile (\<lambda>c. c \<noteq> CHR '','') s) else s)"

text \<open>A number in a template string.\<close>

definition digit_char :: "nat \<Rightarrow> char" where
  "digit_char n = ''0123456789'' ! n"

function show_nat :: "nat \<Rightarrow> string" where
  "show_nat n = (if n < 10 then [digit_char n] else show_nat (n div 10) @ [digit_char (n mod 10)])"
  by pat_completeness auto
termination
  by (relation "measure id") auto

declare show_nat.simps [simp del]

subsection \<open>Status line and attachment\<close>

definition updateStatus :: "string \<Rightarrow> bool \<Rightarrow> voice_app \<Rightarrow> voice_app" where
  "updateStatus message isError st = st\<lparr>statusText := message, statusIsError := isError\<rparr>"

text \<open>The application after its constructor ran with an API key.\<close>

definition new_GeminiLiveVoiceApp :: voice_app where
  \<open>new_GeminiLiveVoiceApp =
     \<lparr> currentImageBase64 = None, currentImageMimeType = None, session = None,
       isRecording = False, audioContext = False, micStream = False, micSourceNode = False,
       audioWorkletNode = False, audioQueue = [], isPlayingAudio = False,
       isSetupComplete = False, imageSendIntervalId = None,
       statusText = ''Click "Talk" or Upload an Image'', statusIsError = False,
       intervals = [], lastIntervalHandle = 0, sentInput = [], closedSessions = [],
       startedSources = [], playingSources = [], pendingConnects = 0,
       pendingMicRequests = 0, pendingPlayback = [] \<rparr>\<close>

definition removeImage :: "voice_app \<Rightarrow> voice_app" where
  \<open>removeImage st =
     updateStatus ''Image removed. Click "Talk" or Upload an Image'' False
       (st\<lparr>currentImageBase64 := None, currentImageMimeType := None\<rparr>)\<close>

text \<open>
  \<^verbatim>\<open>handleImageUpload\<close> up to the start of the file reader; the argument is the type of
  the chosen file, \<open>None\<close> when no file was chosen.
\<close>

definition handleImageUpload :: "string option \<Rightarrow> voice_app \<Rightarrow> voice_app" where
  "handleImageUpload file st =
     (case file of
        None \<Rightarrow> st
      | Some fileType \<Rightarrow>
          if fileType \<notin> set [''image/jpeg'', ''image/png'', ''image/webp'']
          then removeImage
                 (updateStatus ''Invalid image type. Please use JPG, PNG, or WEBP.'' True st)
          else st)"

text \<open>The reader's \<^verbatim>\<open>onload\<close> and \<^verbatim>\<open>onerror\<close> callbacks.\<close>

definition reader_onload :: "string \<Rightarrow> string \<Rightarrow> voice_app \<Rightarrow> voice_app" where
  "reader_onload base64Full fileType st =
     updateStatus ''Image loaded. It will be sent periodically during voice chat.'' False
       (st\<lparr>currentImageBase64 := Some (after_first_comma base64Full),
            currentImageMimeType := Some fileType\<rparr>)"

definition reader_onerror :: "voice_app \<Rightarrow> voice_app" where
  "reader_onerror st = removeImage (updateStatus ''Error reading image file.'' True st)"

subsection \<open>The periodic attachment scheduler\<close>

text \<open>
  \<^verbatim>\<open>session.sendRealtimeInput({ media })\<close> on the session held; the call is taken to
  succeed.
\<close>

definition sendRealtimeInput :: "blob \<Rightarrow> voice_app \<Rightarrow> voice_app" where
  "sendRealtimeInput media st =
     (case session st of
        None \<Rightarrow> st
      | Some s \<Rightarrow> st\<lparr>sentInput := sentInput st @ [(s, media)]\<rparr>)"

definition sendPeriodicImageData :: "voice_app \<Rightarrow> voice_app" where
  "sendPeriodicImageData st =
     (if truthy_string (currentImageBase64 st) \<and> truthy_string (currentImageMimeType st)
         \<and> session st \<noteq> None \<and> isRecording st \<and> isSetupComplete st
      then sendRealtimeInput
             \<lparr> data = option_or [] (currentImageBase64 st),
               mimeType = option_or [] (currentImageMimeType st) \<rparr> st
      else st)"

text \<open>\<^verbatim>\<open>clearInterval\<close> and \<^verbatim>\<open>window.setInterval\<close>; a new handle is a new positive number.\<close>

definition clearInterval :: "nat \<Rightarrow> voice_app \<Rightarrow> voice_app" where
  "clearInterval h st = st\<lparr>intervals := removeAll h (intervals st)\<rparr>"

definition setInterval :: "voice_app \<Rightarrow> nat \<times> voice_app" where
  "setInterval st =
     (let h = Suc (lastIntervalHandle st)
      in (h, st\<lparr>intervals := intervals st @ [h], lastIntervalHandle := h\<rparr>))"

definition stopPeriodicImageSending :: "voice_app \<Rightarrow> voice_app" where
  "stopPeriodicImageSending st =
     (if truthy_number (imageSendIntervalId st)
      then (clearInterval (option_or 0 (imageSendIntervalId st)) st)
             \<lparr>imageSendIntervalId := None\<rparr>
      else st)"

definition startPeriodicImageSending :: "voice_app \<Rightarrow> voice_app" where
  "startPeriodicImageSending st =
     (let st1 = (if truthy_number (imageSendIntervalId st)
                 then (clearInterval (option_or 0 (imageSendIntervalId st)) st)
                        \<lparr>imageSendIntervalId := None\<rparr>
                 else st)
      in if session st1 = None \<or> \<not> isSetupComplete st1 \<or> \<not> isRecording st1 then st1
         else
           let (h, st2) = setInterval st1;
               st3 = st2\<lparr>imageSendIntervalId := Some h\<rparr>
           in if truthy_string (currentImageBase64 st3)
                 \<and> truthy_string (currentImageMimeType st3)
              then sendPeriodicImageData st3
              else st3)"

subsection \<open>Audio system, nodes and playback queue\<close>

text \<open>
  How a call of \<^verbatim>\<open>initializeAudioSystem\<close> ends: all went well, the \<^verbatim>\<open>AudioContext\<close>
  constructor threw, \<^verbatim>\<open>resume\<close> was rejected, or the worklet module did not load. The
  call is taken as one step, made when it settles.
\<close>

datatype audio_init = AudioReady | ContextFailed | ResumeFailed | WorkletFailed

definition initializeAudioSystem :: "audio_init \<Rightarrow> voice_app \<Rightarrow> bool \<times> voice_app" where
  "initializeAudioSystem outcome st =
     (if \<not> audioContext st then
        (case outcome of
           AudioReady \<Rightarrow> (True, st\<lparr>audioContext := True\<rparr>)
         | ContextFailed \<Rightarrow> (False, updateStatus ''Error initializing audio system.'' True st)
         | ResumeFailed \<Rightarrow>
             (False, updateStatus ''Error initializing audio system.'' True
                       (st\<lparr>audioContext := True\<rparr>))
         | WorkletFailed \<Rightarrow>
             (False, updateStatus ''Error loading audio processor.'' True
                       (st\<lparr>audioContext := True\<rparr>)))
      else
        (case outcome of
           ResumeFailed \<Rightarrow> (False, updateStatus ''Error resuming audio system.'' True st)
         | _ \<Rightarrow> (True, st)))"

definition cleanupAudioNodes :: "voice_app \<Rightarrow> voice_app" where
  "cleanupAudioNodes st =
     st\<lparr>audioWorkletNode := False, micSourceNode := False, micStream := False\<rparr>"

definition clearAudioQueueAndStopPlayback :: "voice_app \<Rightarrow> voice_app" where
  "clearAudioQueueAndStopPlayback st = st\<lparr>audioQueue := [], isPlayingAudio := False\<rparr>"

text \<open>
  The message of the RangeError that \<^verbatim>\<open>new Int16Array(buffer)\<close> throws on a buffer of odd
  length (the wording is the browser's).
\<close>

definition int16_length_error :: string where
  "int16_length_error = ''byte length of Int16Array should be a multiple of 2''"

text \<open>
  \<^verbatim>\<open>playNextInQueue\<close>, and \<open>play_buffer\<close>, its \<^verbatim>\<open>try\<close> block. \<open>running\<close> says whether the
  audio context is in the state \<^verbatim>\<open>running\<close> when the function is called. A buffer whose
  playback has to wait for \<^verbatim>\<open>initializeAudioSystem\<close> is parked in \<open>pendingPlayback\<close>;
  \<open>playNextInQueue_resume\<close> is the function from that \<^verbatim>\<open>await\<close> on.
\<close>

function playNextInQueue :: "bool \<Rightarrow> voice_app \<Rightarrow> voice_app"
  and play_buffer :: "bool \<Rightarrow> byte list \<Rightarrow> voice_app \<Rightarrow> voice_app" where
  "playNextInQueue running st =
     (case audioQueue st of
        [] \<Rightarrow>
          (let st1 = st\<lparr>isPlayingAudio := False\<rparr>
           in if \<not> isRecording st1 \<and> isSetupComplete st1
              then updateStatus ''Ready to talk or Upload Image'' False st1
              else if isRecording st1 then updateStatus ''Listening...'' False st1
              else st1)
      | audioArrayBuffer # rest \<Rightarrow>
          (let st1 = st\<lparr>isPlayingAudio := True, audioQueue := rest\<rparr>
           in if length audioArrayBuffer < 2
              then playNextInQueue running (st1\<lparr>isPlayingAudio := False\<rparr>)
              else if \<not> (audioContext st1 \<and> running)
              then st1\<lparr>pendingPlayback := pendingPlayback st1 @ [audioArrayBuffer]\<rparr>
              else play_buffer running audioArrayBuffer st1))"
| "play_buffer running audioArrayBuffer st =
     (if odd (length audioArrayBuffer)
      then playNextInQueue running
             ((updateStatus (''Error playing audio: '' @ int16_length_error) True st)
                \<lparr>isPlayingAudio := False\<rparr>)
      else updateStatus ''Playing Gemini response...'' False
             (st\<lparr>startedSources := startedSources st @ [audioArrayBuffer],
                  playingSources := playingSources st @ [audioArrayBuffer]\<rparr>))"
  by pat_completeness auto
termination
  by (relation "measure (\<lambda>x. case x of
          Inl (running, st) \<Rightarrow> 2 * length (audioQueue st) + 1
        | Inr (running, buf, st) \<Rightarrow> 2 * length (audioQueue st) + 2)")
     (auto simp: updateStatus_def)

declare playNextInQueue.simps [simp del]
declare play_buffer.simps [simp del]

definition playNextInQueue_resume :: "audio_init \<Rightarrow> bool \<Rightarrow> voice_app \<Rightarrow> voice_app" where
  "playNextInQueue_resume outcome running st =
     (case pendingPlayback st of
        [] \<Rightarrow> st
      | audioArrayBuffer # waiting \<Rightarrow>
          (let (audioSystemReady, st1) =
                 initializeAudioSystem outcome (st\<lparr>pendingPlayback := waiting\<rparr>)
           in if \<not> audioSystemReady \<or> \<not> audioContext st1
              then (updateStatus ''AudioContext not available for playback.'' True st1)
                     \<lparr>isPlayingAudio := False,
                      audioQueue := audioArrayBuffer # audioQueue st1\<rparr>
              else play_buffer running audioArrayBuffer st1))"

definition enqueueAudio :: "bool \<Rightarrow> byte list \<Rightarrow> voice_app \<Rightarrow> voice_app" where
  "enqueueAudio running audioArrayBuffer st =
     (let st1 = st\<lparr>audioQueue := audioQueue st @ [audioArrayBuffer]\<rparr>
      in if \<not> isPlayingAudio st1 then playNextInQueue running st1 else st1)"

text \<open>
  The \<^verbatim>\<open>onended\<close> callback of a buffer source: the source that has played longest ends,
  and the next buffer is taken.
\<close>

definition source_onended :: "bool \<Rightarrow> voice_app \<Rightarrow> voice_app" where
  "source_onended running st =
     (case playingSources st of
        [] \<Rightarrow> st
      | s # others \<Rightarrow> playNextInQueue running (st\<lparr>playingSources := others\<rparr>))"

subsection \<open>Session and recording\<close>

definition cleanupAfterErrorOrClose :: "bool \<Rightarrow> voice_app \<Rightarrow> voice_app" where
  "cleanupAfterErrorOrClose isErrorOrigin st =
     (let st1 = st\<lparr>isRecording := False, isSetupComplete := False\<rparr>;
          st2 = stopPeriodicImageSending st1;
          st3 = cleanupAudioNodes st2;
          st4 = st3\<lparr>session := None\<rparr>;
          st5 = clearAudioQueueAndStopPlayback st4
      in if \<not> isErrorOrigin
            \<and> \<not> includes_string (toLowerCase (statusText st5)) ''error''
            \<and> \<not> includes_string (toLowerCase (statusText st5)) ''disconnect''
         then (if statusText st5 \<noteq> ''Call ended.''
               then updateStatus ''Ready to talk or Upload Image'' False st5
               else st5)
         else st5)"

text \<open>
  \<^verbatim>\<open>connectToGeminiIfNeeded\<close> with \<^verbatim>\<open>connectToGemini\<close> up to the call of
  \<^verbatim>\<open>live.connect\<close>: either it returns at once, or the connection attempt is pending.
\<close>

datatype connect_step = Returned bool | Connecting

definition connectToGemini :: "voice_app \<Rightarrow> connect_step \<times> voice_app" where
  "connectToGemini st =
     (let st1 = (updateStatus ''Connecting to Gemini...'' False st)\<lparr>isSetupComplete := False\<rparr>;
          st2 = (case session st1 of
                   None \<Rightarrow> st1
                 | Some s \<Rightarrow> st1\<lparr>closedSessions := closedSessions st1 @ [s], session := None\<rparr>)
      in (Connecting, st2\<lparr>pendingConnects := Suc (pendingConnects st2)\<rparr>))"

definition connectToGeminiIfNeeded :: "voice_app \<Rightarrow> connect_step \<times> voice_app" where
  "connectToGeminiIfNeeded st =
     (if session st \<noteq> None \<and> isSetupComplete st then (Returned True, st)
      else if session st \<noteq> None \<and> \<not> isSetupComplete st then (Returned True, st)
      else connectToGemini (st\<lparr>isSetupComplete := False\<rparr>))"

text \<open>
  \<^verbatim>\<open>connectToGemini\<close> from the settling of \<^verbatim>\<open>live.connect\<close> on: the new session, or the
  error with its message.
\<close>

definition connectToGemini_settled ::
  "nat option \<Rightarrow> string \<Rightarrow> voice_app \<Rightarrow> bool \<times> voice_app" where
  "connectToGemini_settled result message st =
     (case result of
        Some s \<Rightarrow> (True, st\<lparr>session := Some s\<rparr>)
      | None \<Rightarrow>
          (False, cleanupAfterErrorOrClose True
                    (updateStatus (''Connection setup failed: '' @ message) True st)))"

text \<open>
  \<^verbatim>\<open>startRecording\<close> in its three parts: up to \<^verbatim>\<open>await connectToGeminiIfNeeded()\<close>, from
  there to \<^verbatim>\<open>await getUserMedia\<close>, and from the settling of \<^verbatim>\<open>getUserMedia\<close> on (the
  \<^verbatim>\<open>try\<close> block succeeded, or it threw with a message).
\<close>

datatype start_step = Finished | Continue bool | AwaitConnect

definition startRecording_begin :: "voice_app \<Rightarrow> start_step \<times> voice_app" where
  "startRecording_begin st =
     (if \<not> audioContext st
      then (Finished, (updateStatus ''Audio system not ready.'' True st)\<lparr>isRecording := False\<rparr>)
      else (case connectToGeminiIfNeeded st of
              (Returned connectedAndSetup, st1) \<Rightarrow> (Continue connectedAndSetup, st1)
            | (Connecting, st1) \<Rightarrow> (AwaitConnect, st1)))"

definition startRecording_connected :: "bool \<Rightarrow> voice_app \<Rightarrow> voice_app" where
  "startRecording_connected connectedAndSetup st =
     (if \<not> connectedAndSetup \<or> \<not> isSetupComplete st then
        (let st1 = updateStatus
                     (if isSetupComplete st then ''Connection failed. Cannot start recording.''
                      else ''Waiting for connection setup...'')
                     (isSetupComplete st) st
         in if \<not> connectedAndSetup then st1\<lparr>isRecording := False\<rparr> else st1)
      else if \<not> isRecording st then st
      else (updateStatus ''Requesting microphone...'' False st)
             \<lparr>pendingMicRequests := Suc (pendingMicRequests st)\<rparr>)"

definition startRecording_mic_settled :: "bool \<Rightarrow> string \<Rightarrow> voice_app \<Rightarrow> voice_app" where
  "startRecording_mic_settled granted message st =
     (if granted then
        startPeriodicImageSending
          (updateStatus ''Listening...'' False
             (st\<lparr>micStream := True, micSourceNode := True, audioWorkletNode := True\<rparr>))
      else
        cleanupAudioNodes
          ((updateStatus (''Mic/AudioWorklet error: '' @ message) True st)
             \<lparr>isRecording := False\<rparr>))"

text \<open>A whole call of \<^verbatim>\<open>startRecording\<close> up to its first pending request.\<close>

definition startRecording :: "voice_app \<Rightarrow> voice_app" where
  "startRecording st =
     (case startRecording_begin st of
        (Continue connectedAndSetup, st1) \<Rightarrow> startRecording_connected connectedAndSetup st1
      | (_, st1) \<Rightarrow> st1)"

text \<open>\<^verbatim>\<open>stopRecording\<close>; \<^verbatim>\<open>session.close()\<close> is taken not to throw.\<close>

definition stopRecording :: "voice_app \<Rightarrow> voice_app" where
  "stopRecording st =
     (if \<not> isRecording st \<and> session st = None
      then cleanupAudioNodes (st\<lparr>isRecording := False\<rparr>)
      else
        let st1 = cleanupAudioNodes (stopPeriodicImageSending (st\<lparr>isRecording := False\<rparr>))
        in case session st1 of
             Some s \<Rightarrow>
               (updateStatus ''Ending call...'' False st1)
                 \<lparr>closedSessions := closedSessions st1 @ [s]\<rparr>
           | None \<Rightarrow> updateStatus ''Ready to talk or Upload Image'' False st1)"

definition toggleRecording :: "audio_init \<Rightarrow> voice_app \<Rightarrow> voice_app" where
  "toggleRecording outcome st =
     (let (audioSystemReady, st1) = initializeAudioSystem outcome st
      in if \<not> audioSystemReady
         then updateStatus ''Audio system failed to initialize.'' True st1
         else if isRecording st1 then stopRecording st1
         else startRecording (st1\<lparr>isRecording := True\<rparr>))"

subsection \<open>The callbacks of the session\<close>

definition session_onopen :: "voice_app \<Rightarrow> voice_app" where
  "session_onopen st = updateStatus ''Connected to Gemini! Finalizing setup...'' False st"

text \<open>
  A message of the server, as far as \<^verbatim>\<open>onmessage\<close> reads it: the setup acknowledgement,
  the \<^verbatim>\<open>inlineData.data\<close> strings of the parts of a model turn (\<open>None\<close> for a part without
  one) and the end of the turn.
\<close>

record server_message =
  setupComplete :: bool
  inlineParts :: "string option list"
  turnComplete :: bool

definition handle_part :: "bool \<Rightarrow> string option \<Rightarrow> voice_app \<Rightarrow> voice_app" where
  "handle_part running part st =
     (if truthy_string part then
        (case base64ToArrayBuffer (option_or [] part) of
           Inl e \<Rightarrow> st
         | Inr audioArrayBuffer \<Rightarrow> enqueueAudio running audioArrayBuffer st)
      else st)"

text \<open>
  \<^verbatim>\<open>onmessage\<close>, its three \<^verbatim>\<open>if\<close> statements in turn: the setup acknowledgement, the
  parts of a model turn, the end of the turn. The call \<^verbatim>\<open>this.startRecording()\<close> is not
  awaited: it runs up to its first \<^verbatim>\<open>await\<close>, the handler finishes, and only then the call
  goes on.
\<close>

definition onmessage_setup :: "server_message \<Rightarrow> voice_app \<Rightarrow> start_step \<times> voice_app" where
  "onmessage_setup response st =
     (if setupComplete response then
        (let st0 = updateStatus ''Ready to talk or Upload Image'' False
                     (st\<lparr>isSetupComplete := True\<rparr>)
         in if isRecording st0 then startRecording_begin st0
            else if truthy_string (currentImageBase64 st0)
            then (Finished, startPeriodicImageSending st0)
            else (Finished, st0))
      else (Finished, st))"

definition onmessage_parts :: "bool \<Rightarrow> server_message \<Rightarrow> voice_app \<Rightarrow> voice_app" where
  "onmessage_parts running response st = fold (handle_part running) (inlineParts response) st"

definition onmessage_turn :: "server_message \<Rightarrow> voice_app \<Rightarrow> voice_app" where
  "onmessage_turn response st =
     (if turnComplete response \<and> \<not> isRecording st \<and> isSetupComplete st
      then updateStatus ''Ready to talk or Upload Image'' False st
      else st)"

definition session_onmessage :: "bool \<Rightarrow> server_message \<Rightarrow> voice_app \<Rightarrow> voice_app" where
  "session_onmessage running response st =
     (let (step, st1) = onmessage_setup response st;
          st2 = onmessage_parts running response st1;
          st3 = onmessage_turn response st2
      in case step of
           Continue connectedAndSetup \<Rightarrow> startRecording_connected connectedAndSetup st3
         | _ \<Rightarrow> st3)"

definition session_onerror :: "string \<Rightarrow> voice_app \<Rightarrow> voice_app" where
  "session_onerror errorMessage st =
     cleanupAfterErrorOrClose True
       (updateStatus (''WebSocket Error: '' @ errorMessage) True st)"

text \<open>\<^verbatim>\<open>onclose\<close>, from the close code and the \<^verbatim>\<open>wasClean\<close> flag of the event.\<close>

definition session_onclose :: "nat \<Rightarrow> bool \<Rightarrow> voice_app \<Rightarrow> voice_app" where
  "session_onclose code wasClean st =
     cleanupAfterErrorOrClose False
       (if \<not> wasClean \<and> isRecording st
        then updateStatus (''Disconnected unexpectedly (Code: '' @ show_nat code @ '')'') True st
        else if code = 1000 \<and> \<not> isRecording st
        then updateStatus ''Call ended.'' False st
        else if code \<noteq> 1000
        then updateStatus (''Disconnected (Code: '' @ show_nat code @ '')'') False st
        else updateStatus ''Disconnected.'' False st)"

subsection \<open>The worklet's messages\<close>

datatype worklet_post = WorkletDebug | WorkletPcm "byte list"

text \<open>The \<^verbatim>\<open>port.onmessage\<close> handler that \<^verbatim>\<open>startRecording\<close> installs.\<close>

definition worklet_onmessage :: "worklet_post \<Rightarrow> voice_app \<Rightarrow> voice_app" where
  "worklet_onmessage post st =
     (case post of
        WorkletDebug \<Rightarrow> st
      | WorkletPcm pcmArrayBuffer \<Rightarrow>
          if session st \<noteq> None \<and> isRecording st then
            (if length pcmArrayBuffer = 0 then st
             else (case arrayBufferToBase64 pcmArrayBuffer of
                     Inl e \<Rightarrow> st
                   | Inr base64AudioData \<Rightarrow>
                       sendRealtimeInput
                         \<lparr> data = base64AudioData,
                           mimeType = ''audio/pcm;rate='' @ show_nat TARGET_SAMPLE_RATE \<rparr> st))
          else st)"

subsection \<open>Events\<close>

text \<open>
  Everything that calls into the application: the two buttons and the file input, the file
  reader, the settling of \<^verbatim>\<open>live.connect\<close> and of \<^verbatim>\<open>getUserMedia\<close>, the session's
  callbacks, a message of the worklet, a tick of the interval, the end of a buffer source,
  and the settling of the \<^verbatim>\<open>initializeAudioSystem\<close> a playback waits for. An event whose
  source does not exist (no pending call, no handler installed, no interval, nothing
  playing) changes nothing.
\<close>

datatype event =
    ClickRecord audio_init
  | ChooseFile "string option"
  | FileLoaded string string
  | FileError
  | ClickRemoveImage
  | ConnectSettled "nat option" string
  | SessionOpen
  | SessionMessage bool server_message
  | SessionError string
  | SessionClose nat bool
  | MicSettled bool string
  | WorkletPost worklet_post
  | IntervalTick
  | SourceEnded bool
  | AudioInitSettled audio_init bool

definition step :: "event \<Rightarrow> voice_app \<Rightarrow> voice_app" where
  "step e st =
     (case e of
        ClickRecord outcome \<Rightarrow> toggleRecording outcome st
      | ChooseFile file \<Rightarrow> handleImageUpload file st
      | FileLoaded base64Full fileType \<Rightarrow> reader_onload base64Full fileType st
      | FileError \<Rightarrow> reader_onerror st
      | ClickRemoveImage \<Rightarrow> removeImage st
      | ConnectSettled result message \<Rightarrow>
          (if pendingConnects st = 0 then st
           else
             let (connectedAndSetup, st1) =
                   connectToGemini_settled result message
                     (st\<lparr>pendingConnects := pendingConnects st - 1\<rparr>)
             in startRecording_connected connectedAndSetup st1)
      | SessionOpen \<Rightarrow> session_onopen st
      | SessionMessage running response \<Rightarrow> session_onmessage running response st
      | SessionError errorMessage \<Rightarrow> session_onerror errorMessage st
      | SessionClose code wasClean \<Rightarrow> session_onclose code wasClean st
      | MicSettled granted message \<Rightarrow>
          (if pendingMicRequests st = 0 then st
           else startRecording_mic_settled granted message
                  (st\<lparr>pendingMicRequests := pendingMicRequests st - 1\<rparr>))
      | WorkletPost post \<Rightarrow> (if audioWorkletNode st then worklet_onmessage post st else st)
      | IntervalTick \<Rightarrow> (if intervals st = [] then st else sendPeriodicImageData st)
      | SourceEnded running \<Rightarrow> source_onended running st
      | AudioInitSettled outcome running \<Rightarrow> playNextInQueue_resume outcome running st)"

definition run :: "event list \<Rightarrow> voice_app \<Rightarrow> voice_app" where
  "run events st = fold step events st"

subsection \<open>The playback queue on its own\<close>

text \<open>
  What drives the playback queue: a buffer is enqueued, the source playing ends, or the
  \<^verbatim>\<open>initializeAudioSystem\<close> a playback waits for settles. Each carries whether the audio
  context is running at that moment.
\<close>

datatype playback_event =
    Enqueue bool "byte list"
  | Ended bool
  | InitSettled audio_init bool

fun playback_step :: "playback_event \<Rightarrow> voice_app \<Rightarrow> voice_app" where
  "playback_step (Enqueue running audioArrayBuffer) st = enqueueAudio running audioArrayBuffer st"
| "playback_step (Ended running) st = source_onended running st"
| "playback_step (InitSettled outcome running) st = playNextInQueue_resume outcome running st"

definition playback_run :: "playback_event list \<Rightarrow> voice_app \<Rightarrow> voice_app" where
  "playback_run events st = fold playback_step events st"

text \<open>The buffers a list of events enqueues, in order.\<close>

fun enqueued :: "playback_event list \<Rightarrow> byte list list" where
  "enqueued [] = []"
| "enqueued (Enqueue running audioArrayBuffer # events) = audioArrayBuffer # enqueued events"
| "enqueued (e # events) = enqueued events"

text \<open>
  A buffer that \<^verbatim>\<open>playNextInQueue\<close> hands to a buffer source: at least two bytes, and a
  whole number of 16-bit samples.
\<close>

definition playable :: "byte list \<Rightarrow> bool" where
  "playable audioArrayBuffer \<longleftrightarrow> 2 \<le> length audioArrayBuffer \<and> even (length audioArrayBuffer)"

subsection \<open>Some runs of the application\<close>

definition setup_message :: server_message where
  "setup_message = \<lparr> setupComplete = True, inlineParts = [], turnComplete = False \<rparr>"

text \<open>
  The user presses Talk, the connection is made (session 1), the server acknowledges the
  setup and the microphone is granted: the application records.
\<close>

definition recording_trace :: "event list" where
  "recording_trace =
     [ClickRecord AudioReady, SessionOpen, ConnectSettled (Some 1) [],
      SessionMessage True setup_message, MicSettled True []]"

text \<open>
  The session closes while the microphone request is still open; the request is granted
  afterwards, the user presses Talk again and a second session (2) is connected, whose setup
  the server has not acknowledged yet.
\<close>

definition stale_handler_trace :: "event list" where
  "stale_handler_trace =
     [ClickRecord AudioReady, SessionOpen, ConnectSettled (Some 1) [],
      SessionMessage True setup_message, SessionClose 1006 False, MicSettled True [],
      ClickRecord AudioReady, SessionOpen, ConnectSettled (Some 2) []]"


text \<open>
  A message of the server carrying one part of audio, and three runs around a teardown.
  The application records and the server sends the buffer \<open>[1, 0]\<close>, which starts to play.
  The user presses the button to end the call and the session closes (code 1000) while
  the buffer still plays. The user presses Talk again, a second session (2) is connected
  and acknowledged, the microphone is granted, and the server sends the buffer \<open>[2, 0]\<close>
  before the first one has ended.
\<close>

definition audio_message :: "string \<Rightarrow> server_message" where
  "audio_message base64 =
     \<lparr> setupComplete = False, inlineParts = [Some base64], turnComplete = False \<rparr>"

definition playing_trace :: "event list" where
  "playing_trace = recording_trace @ [SessionMessage True (audio_message ''AQA='')]"

definition teardown_trace :: "event list" where
  "teardown_trace = playing_trace @ [ClickRecord AudioReady, SessionClose 1000 True]"

definition overlap_trace :: "event list" where
  "overlap_trace =
     teardown_trace
       @ [ClickRecord AudioReady, SessionOpen, ConnectSettled (Some 2) [],
          SessionMessage True setup_message, MicSettled True [],
          SessionMessage True (audio_message ''AgA='')]"

subsection \<open>Invariants used in the proofs\<close>

text \<open>
  The interval the application holds is the one interval of the window, its handle is not
  zero, it runs only while recording with an acknowledged session, and recording was only
  ever requested with an audio context.
\<close>

definition timer_inv :: "voice_app \<Rightarrow> bool" where
  "timer_inv st \<longleftrightarrow>
     intervals st = (case imageSendIntervalId st of None \<Rightarrow> [] | Some h \<Rightarrow> [h])
     \<and> imageSendIntervalId st \<noteq> Some 0
     \<and> (intervals st = [] \<or> (isRecording st \<and> session st \<noteq> None \<and> isSetupComplete st))
     \<and> (audioContext st \<or> \<not> isRecording st)"


text \<open>
  The playback queue between two events: a flag that is set stands for exactly one buffer
  in flight (playing, or waiting for the audio system), a flag that is clear for none.
\<close>

definition playback_inv :: "voice_app \<Rightarrow> bool" where
  "playback_inv st \<longleftrightarrow>
     length (playingSources st) + length (pendingPlayback st)
       = (if isPlayingAudio st then 1 else 0)
     \<and> list_all (\<lambda>b. 2 \<le> length b) (pendingPlayback st)"

text \<open>What one call of the playback functions does to the queue, from an idle player.\<close>

definition idle :: "voice_app \<Rightarrow> bool" where
  "idle st \<longleftrightarrow> playingSources st = [] \<and> pendingPlayback st = []"

definition queue_order :: "voice_app \<Rightarrow> byte list list" where
  "queue_order st = startedSources st @ filter playable (pendingPlayback st @ audioQueue st)"

text \<open>The fields the timer invariant reads.\<close>

definition timer_view ::
  "voice_app \<Rightarrow> nat list \<times> nat option \<times> bool \<times> nat option \<times> bool" where
  "timer_view st =
     (intervals st, imageSendIntervalId st, isRecording st, session st, isSetupComplete st)"

definition timer_fields ::
  "voice_app \<Rightarrow> (nat list \<times> nat option \<times> bool \<times> nat option \<times> bool) \<times> bool" where
  "timer_fields st = (timer_view st, audioContext st)"


section \<open>Properties of the audio worklet\<close>

subsection \<open>Rounding\<close>

text \<open>
  The exponent search is right for every number between \<open>2 ^ - n\<close> and \<open>2 ^ (n + 1)\<close>;
  the rounding yields a multiple of the spacing at most half a spacing away, and leaves
  the integers alone.
\<close>

lemma two_powi_Suc: "(2::real) powi (k + 1) = 2 * 2 powi k"
  by (simp add: power_int_add)

lemma two_powi_pred: "(2::real) powi (k - 1) = 2 powi k / 2"
  by (simp add: power_int_diff)

lemma two_powi_neg_le_one: "(2::real) powi (- int n) \<le> 1"
  by (simp add: power_int_minus inverse_le_1_iff)

lemma two_powi_pos_ge_two: "(2::real) \<le> 2 powi (int n + 1)"
proof -
  have "(1::real) \<le> 2 ^ n" by simp
  then show ?thesis by (simp add: two_powi_Suc)
qed

lemma binade_bounds:
  assumes "2 powi (- int n) \<le> x" and "x < 2 powi (int n + 1)"
  shows "2 powi (binade n x) \<le> x \<and> x < 2 powi (binade n x + 1)"
  using assms
proof (induction n arbitrary: x)
  case 0
  then show ?case by simp
next
  case (Suc n)
  consider "2 \<le> x" | "x < 1" | "1 \<le> x" "x < 2" by linarith
  then show ?case
  proof cases
    case 1
    have "2 powi (- int n) \<le> x / 2" using 1 two_powi_neg_le_one [of n] by linarith
    moreover have "x / 2 < 2 powi (int n + 1)"
    proof -
      have "(2::real) powi (int (Suc n) + 1) = 2 * 2 powi (int n + 1)"
        using two_powi_Suc [of "int n + 1"] by (simp add: add.commute)
      with Suc.prems(2) show ?thesis by simp
    qed
    ultimately have "2 powi (binade n (x / 2)) \<le> x / 2
        \<and> x / 2 < 2 powi (binade n (x / 2) + 1)" by (rule Suc.IH)
    then have "2 * 2 powi (binade n (x / 2)) \<le> x
        \<and> x < 2 * 2 powi (binade n (x / 2) + 1)" by simp
    then have "2 powi (binade n (x / 2) + 1) \<le> x
        \<and> x < 2 powi (binade n (x / 2) + 1 + 1)"
      unfolding two_powi_Suc [of "binade n (x / 2) + 1"] two_powi_Suc [of "binade n (x / 2)"] .
    moreover from 1 have "binade (Suc n) x = binade n (x / 2) + 1" by simp
    ultimately show ?thesis by simp
  next
    case 2
    have "2 powi (- int n) \<le> x * 2"
    proof -
      have "(2::real) powi (- int n) = 2 * 2 powi (- int (Suc n))"
        using two_powi_Suc [of "- int (Suc n)"] by simp
      with Suc.prems(1) show ?thesis by simp
    qed
    moreover have "x * 2 < 2 powi (int n + 1)"
      using 2 two_powi_pos_ge_two [of n] by linarith
    ultimately have "2 powi (binade n (x * 2)) \<le> x * 2
        \<and> x * 2 < 2 powi (binade n (x * 2) + 1)" by (rule Suc.IH)
    then have "2 powi (binade n (x * 2)) / 2 \<le> x
        \<and> x < 2 powi (binade n (x * 2) + 1) / 2" by simp
    then have "2 powi (binade n (x * 2) - 1) \<le> x
        \<and> x < 2 powi (binade n (x * 2) - 1 + 1)"
      unfolding two_powi_pred [of "binade n (x * 2)"]
        two_powi_Suc [of "binade n (x * 2) - 1"] two_powi_Suc [of "binade n (x * 2)"]
      by simp
    moreover from 2 have "binade (Suc n) x = binade n (x * 2) - 1" by simp
    ultimately show ?thesis by simp
  next
    case 3
    then show ?thesis by simp
  qed
qed

lemma round_half_even_error: "\<bar>real_of_int (round_half_even x) - x\<bar> \<le> 1 / 2"
proof -
  have "real_of_int \<lfloor>x\<rfloor> \<le> x" "x < real_of_int \<lfloor>x\<rfloor> + 1" by linarith+
  then show ?thesis by (auto simp: round_half_even_def Let_def)
qed

lemma round_half_even_int: "round_half_even (real_of_int k) = k"
  by (simp add: round_half_even_def)

lemma ieee_round_error:
  "\<bar>ieee_round p emin x - x\<bar> \<le> 2 powi (max (binade 1100 \<bar>x\<bar>) emin - int p + 1) / 2"
proof (cases "x = 0")
  case True
  then show ?thesis by (simp add: ieee_round_def)
next
  case False
  define u :: real where "u = 2 powi (max (binade 1100 \<bar>x\<bar>) emin - int p + 1)"
  have u: "0 < u" by (simp add: u_def)
  have "\<bar>real_of_int (round_half_even (x / u)) * u - x\<bar>
          = \<bar>real_of_int (round_half_even (x / u)) - x / u\<bar> * u"
  proof -
    have "real_of_int (round_half_even (x / u)) * u - x
            = (real_of_int (round_half_even (x / u)) - x / u) * u"
      using u by (simp add: algebra_simps)
    then show ?thesis using u by (simp add: abs_mult)
  qed
  also have "\<dots> \<le> 1 / 2 * u"
    using round_half_even_error [of "x / u"] u by (intro mult_right_mono) simp_all
  finally show ?thesis using False by (simp add: ieee_round_def Let_def u_def)
qed


lemma round_half_even_nonneg:
  assumes "0 \<le> x"
  shows "0 \<le> round_half_even x"
proof -
  from assms have "0 \<le> \<lfloor>x\<rfloor>" by simp
  then show ?thesis by (simp add: round_half_even_def Let_def)
qed

lemma ieee_round_nonneg:
  assumes "0 \<le> x"
  shows "0 \<le> ieee_round p emin x"
proof (cases "x = 0")
  case True
  then show ?thesis by (simp add: ieee_round_def)
next
  case False
  define u :: real where "u = 2 powi (max (binade 1100 \<bar>x\<bar>) emin - int p + 1)"
  have u: "0 < u" by (simp add: u_def)
  with assms have "0 \<le> x / u" by simp
  then have "0 \<le> round_half_even (x / u)" by (rule round_half_even_nonneg)
  then have "0 \<le> real_of_int (round_half_even (x / u)) * u" using u by simp
  with False show ?thesis by (simp add: ieee_round_def Let_def u_def)
qed

lemma float64_nonneg: "0 \<le> x \<Longrightarrow> 0 \<le> float64 x"
  by (simp add: float64_def ieee_round_nonneg)

lemma float64_zero: "float64 0 = 0"
  by (simp add: float64_def ieee_round_def)

lemma float32_zero: "float32 0 = 0"
  by (simp add: float32_def ieee_round_def)

text \<open>
  A number with at most \<open>p\<close> significant bits above the smallest spacing of the format
  is kept by the rounding, and what the rounding yields is such a number (with \<open>2 ^ p\<close>
  for the significand when it rounds up to the next power of two).
\<close>

lemma binade_le: "binade n x \<le> int n"
proof (induction n arbitrary: x)
  case 0
  then show ?case by simp
next
  case (Suc n)
  from Suc.IH [of "x / 2"] Suc.IH [of "x * 2"] show ?case by simp
qed

lemma binade_upper:
  assumes "x < 2 powi (int n + 1)"
  shows "x < 2 powi (binade n x + 1)"
  using assms
proof (induction n arbitrary: x)
  case 0
  then show ?case by simp
next
  case (Suc n)
  consider "2 \<le> x" | "x < 1" | "1 \<le> x" "x < 2" by linarith
  then show ?case
  proof cases
    case 1
    have "(2::real) powi (int (Suc n) + 1) = 2 * 2 powi (int n + 1)"
      using two_powi_Suc [of "int n + 1"] by (simp add: add.commute)
    with Suc.prems have "x / 2 < 2 powi (int n + 1)" by simp
    then have "x / 2 < 2 powi (binade n (x / 2) + 1)" by (rule Suc.IH)
    then have "x < 2 * 2 powi (binade n (x / 2) + 1)" by simp
    then have "x < 2 powi (binade n (x / 2) + 1 + 1)"
      unfolding two_powi_Suc [of "binade n (x / 2) + 1"] .
    moreover from 1 have "binade (Suc n) x = binade n (x / 2) + 1" by simp
    ultimately show ?thesis by simp
  next
    case 2
    have "x * 2 < 2 powi (int n + 1)" using 2 two_powi_pos_ge_two [of n] by linarith
    then have "x * 2 < 2 powi (binade n (x * 2) + 1)" by (rule Suc.IH)
    then have "x * 2 < 2 * 2 powi (binade n (x * 2))"
      unfolding two_powi_Suc [of "binade n (x * 2)"] .
    then have "x < 2 powi (binade n (x * 2))" by simp
    moreover from 2 have "binade (Suc n) x + 1 = binade n (x * 2)" by simp
    ultimately show ?thesis by simp
  next
    case 3
    then show ?thesis by simp
  qed
qed

lemma round_half_even_bound:
  assumes "\<bar>z\<bar> < real_of_int N"
  shows "\<bar>round_half_even z\<bar> \<le> N"
proof -
  from assms have "- real_of_int N \<le> z" "z < real_of_int N" by linarith+
  then have "- N \<le> \<lfloor>z\<rfloor>" "\<lfloor>z\<rfloor> < N" by (simp_all add: le_floor_iff floor_less_iff)
  then show ?thesis by (auto simp: round_half_even_def Let_def)
qed

lemma two_powi_split: "(2::real) powi (a + b) = 2 powi a * 2 powi b"
  by (simp add: power_int_add)

lemma ieee_round_grid:
  assumes "y \<noteq> 0" and "\<bar>y\<bar> < 2 powi 1101"
  shows "\<exists>m q. ieee_round p emin y = real_of_int m * 2 powi q
           \<and> \<bar>m\<bar> \<le> 2 ^ p \<and> emin - int p + 1 \<le> q"
proof -
  define E where "E = max (binade 1100 \<bar>y\<bar>) emin"
  define u :: real where "u = 2 powi (E - int p + 1)"
  define m where "m = round_half_even (y / u)"
  have u: "0 < u" by (simp add: u_def)
  have r: "ieee_round p emin y = real_of_int m * u"
    using assms(1) by (simp add: ieee_round_def Let_def E_def u_def m_def)
  have "\<bar>y\<bar> < 2 powi (int 1100 + 1)" using assms(2) by simp
  then have "\<bar>y\<bar> < 2 powi (binade 1100 \<bar>y\<bar> + 1)" by (rule binade_upper)
  also have "\<dots> \<le> 2 powi (E + 1)"
    by (rule power_int_increasing) (simp_all add: E_def)
  also have "\<dots> = u * 2 powi (int p)"
  proof -
    have "E + 1 = (E - int p + 1) + int p" by simp
    then show ?thesis unfolding u_def by (metis two_powi_split)
  qed
  finally have "\<bar>y\<bar> < u * 2 ^ p" by (simp add: power_int_of_nat)
  then have "\<bar>y\<bar> / u < 2 ^ p" using u by (simp add: pos_divide_less_eq mult.commute)
  then have "\<bar>y / u\<bar> < real_of_int (2 ^ p)" using u by simp
  then have "\<bar>m\<bar> \<le> 2 ^ p" unfolding m_def by (rule round_half_even_bound)
  moreover have "emin - int p + 1 \<le> E - int p + 1" by (simp add: E_def)
  ultimately show ?thesis using r unfolding u_def by blast
qed

lemma ieee_round_exact:
  assumes "M \<noteq> 0" and "\<bar>M\<bar> < 2 ^ p" and "emin - int p + 1 \<le> q" and "- 1100 \<le> q"
    and "\<bar>real_of_int M * 2 powi q\<bar> < 2 powi 1101" and "0 < p"
  shows "ieee_round p emin (real_of_int M * 2 powi q) = real_of_int M * 2 powi q"
proof -
  define x :: real where "x = real_of_int M * 2 powi q"
  define e where "e = binade 1100 \<bar>x\<bar>"
  define E where "E = max e emin"
  define u :: real where "u = 2 powi (E - int p + 1)"
  have x0: "x \<noteq> 0" using assms(1) by (simp add: x_def)
  have ax: "\<bar>x\<bar> = real_of_int \<bar>M\<bar> * 2 powi q" by (simp add: x_def abs_mult)
  have "1 \<le> \<bar>M\<bar>" using assms(1) by simp
  then have "1 \<le> real_of_int \<bar>M\<bar>" by linarith
  then have "1 * 2 powi q \<le> real_of_int \<bar>M\<bar> * (2::real) powi q"
    by (intro mult_right_mono) simp_all
  then have lo: "2 powi q \<le> \<bar>x\<bar>" using ax by simp
  have "(2::real) powi (- int 1100) \<le> 2 powi q"
    by (rule power_int_increasing) (use assms(4) in simp_all)
  with lo have l: "2 powi (- int 1100) \<le> \<bar>x\<bar>" by linarith
  have h: "\<bar>x\<bar> < 2 powi (int 1100 + 1)" using assms(5) by (simp add: x_def)
  from binade_bounds [OF l h] have b: "2 powi e \<le> \<bar>x\<bar>" by (simp add: e_def)
  have "real_of_int \<bar>M\<bar> < 2 ^ p" using assms(2) by (metis of_int_less_iff of_int_numeral of_int_power)
  then have "real_of_int \<bar>M\<bar> * 2 powi q < 2 ^ p * (2::real) powi q"
    by (intro mult_strict_right_mono) simp_all
  also have "\<dots> = 2 powi (int p + q)"
    unfolding two_powi_split by (simp add: power_int_of_nat)
  finally have "\<bar>x\<bar> < 2 powi (int p + q)" using ax by simp
  with b have "(2::real) powi e < 2 powi (int p + q)" by linarith
  have eq: "e < int p + q"
  proof (rule ccontr)
    assume "\<not> e < int p + q"
    then have "int p + q \<le> e" by simp
    then have "(2::real) powi (int p + q) \<le> 2 powi e"
      by (rule power_int_increasing) simp
    with \<open>(2::real) powi e < 2 powi (int p + q)\<close> show False by linarith
  qed
  define k where "k = q - (E - int p + 1)"
  have k: "0 \<le> k" using eq assms(3) by (simp add: k_def E_def)
  have "q = (E - int p + 1) + k" by (simp add: k_def)
  then have "(2::real) powi q = u * 2 powi k" unfolding u_def by (metis two_powi_split)
  also have "\<dots> = u * 2 ^ nat k" using k by (simp add: power_int_nonneg_exp)
  finally have pq: "(2::real) powi q = u * 2 ^ nat k" .
  have u: "0 < u" by (simp add: u_def)
  have "x / u = real_of_int M * 2 ^ nat k" using u by (simp add: x_def pq)
  also have "\<dots> = real_of_int (M * 2 ^ nat k)" by simp
  finally have "round_half_even (x / u) = M * 2 ^ nat k"
    by (simp only: round_half_even_int)
  then have "real_of_int (round_half_even (x / u)) * u = x"
    by (simp add: x_def pq)
  with x0 show ?thesis
    unfolding x_def [symmetric] by (simp add: ieee_round_def Let_def e_def E_def u_def)
qed

lemma float32_bounded:
  assumes "\<bar>float32 y\<bar> < 1"
  shows "\<bar>y\<bar> < 2 powi 1101"
proof (rule ccontr)
  assume "\<not> \<bar>y\<bar> < 2 powi 1101"
  then have big: "2 powi 1101 \<le> \<bar>y\<bar>" by simp
  define E where "E = max (binade 1100 \<bar>y\<bar>) (- 126)"
  have "E \<le> 1100" using binade_le [of 1100 "\<bar>y\<bar>"] by (simp add: E_def)
  then have "E - int 24 + 1 \<le> 1100" by simp
  then have "(2::real) powi (E - int 24 + 1) \<le> 2 powi 1100"
    by (rule power_int_increasing) simp
  moreover have "\<bar>float32 y - y\<bar> \<le> 2 powi (E - int 24 + 1) / 2"
    unfolding float32_def E_def by (rule ieee_round_error)
  ultimately have d: "\<bar>float32 y - y\<bar> \<le> 2 powi 1100" by simp
  have "(2::real) powi 1101 = 2 * 2 powi 1100" using two_powi_Suc [of 1100] by simp
  moreover have "(1::real) \<le> 2 powi 1100"
    using power_int_increasing [of 0 1100 "2::real"] by simp
  ultimately have "1 \<le> \<bar>y\<bar> - 2 powi 1100" using big by linarith
  with d have "1 \<le> \<bar>float32 y\<bar>" by linarith
  with assms show False by simp
qed

text \<open>The rounding of a numeral is evaluated by unfolding the exponent search step by step.\<close>

lemma binade_unfold:
  "0 < n \<Longrightarrow> binade n x =
     (if 2 \<le> x then binade (n - 1) (x / 2) + 1
      else if x < 1 then binade (n - 1) (x * 2) - 1
      else 0)"
  by (cases n) simp_all

lemmas float_eval = float64_def float32_def ieee_round_def round_half_even_def binade_unfold
  Let_def power_int_def power_divide

subsection \<open>The interpolation loop\<close>

lemma resample_loop_spec:
  "resample_loop w i out c =
     (if i < bufferSize w then
        (case stored_output_sample (internalBuffer w) (internalBufferIndex w) (resampleRatio w) i of
           Some s \<Rightarrow>
             resample_loop w (Suc i) (out @ [s]) (\<lfloor>float64 (real i * resampleRatio w)\<rfloor> + 1)
         | None \<Rightarrow> (out, c))
      else (out, c))"
  by (subst resample_loop.simps) (simp add: Let_def stored_output_sample_def)

lemma resample_loop_cong:
  assumes "bufferSize v = bufferSize w" "resampleRatio v = resampleRatio w"
    "internalBuffer v = internalBuffer w" "internalBufferIndex v = internalBufferIndex w"
  shows "resample_loop v i out c = resample_loop w i out c"
proof (induction "bufferSize w - i" arbitrary: i out c)
  case 0
  then show ?case
    using assms by (subst resample_loop_spec [of v], subst resample_loop_spec [of w]) simp
next
  case (Suc n)
  then have "n = bufferSize w - Suc i" by simp
  note IH = Suc.hyps(1) [OF this]
  show ?case
    using assms
    by (subst resample_loop_spec [of v], subst resample_loop_spec [of w])
      (simp add: IH split: option.splits)
qed

lemma sendResampledBuffer_cases:
  "sendResampledBuffer w now =
     (if internalBufferIndex w = 0 \<or> isProcessing w then ([], w)
      else if resampled_frame w = [] then
        ([DebugEmptyOutput], w\<lparr>isProcessing := False, lastSendTime := now\<rparr>)
      else
        ([DebugPosting (length (resampled_frame w)) (consumed_input w),
          PcmData (map quantize (resampled_frame w))],
         if 0 < consumed_input w \<and> consumed_input w \<le> int (internalBufferIndex w)
         then w\<lparr>isProcessing := False, lastSendTime := now,
                internalBuffer :=
                  copyWithin0 (internalBuffer w) (nat (consumed_input w)) (internalBufferIndex w),
                internalBufferIndex := internalBufferIndex w - nat (consumed_input w)\<rparr>
         else w\<lparr>isProcessing := False, lastSendTime := now, internalBufferIndex := 0\<rparr>))"
proof -
  have eq: "resample_loop (w\<lparr>isProcessing := True, lastSendTime := now\<rparr>) 0 [] 0
            = resample_loop w 0 [] 0"
    by (rule resample_loop_cong) simp_all
  show ?thesis
    by (simp add: sendResampledBuffer_def eq resampled_frame_def consumed_input_def
          split_beta Let_def)
qed

lemma resample_loop_frame:
  assumes "resample_loop w i out c = (out', c')" and "length out = i" and "i \<le> bufferSize w"
  shows "length out' \<le> bufferSize w \<and> i \<le> length out' \<and> take i out' = out
       \<and> (\<forall>j. i \<le> j \<and> j < length out' \<longrightarrow>
             stored_output_sample (internalBuffer w) (internalBufferIndex w) (resampleRatio w) j
               = Some (out' ! j))
       \<and> (length out' < bufferSize w \<longrightarrow>
             stored_output_sample (internalBuffer w) (internalBufferIndex w) (resampleRatio w)
               (length out') = None)
       \<and> c' = (if length out' = i then c else \<lfloor>float64 (real (length out' - 1) * resampleRatio w)\<rfloor> + 1)"
  using assms
proof (induction "bufferSize w - i" arbitrary: i out c)
  case 0
  then have eq: "i = bufferSize w" by simp
  then have "resample_loop w i out c = (out, c)"
    by (subst resample_loop_spec) simp
  with "0.prems" have "out' = out" "c' = c" by simp_all
  with "0.prems" eq show ?case by auto
next
  case (Suc n)
  let ?sp = "stored_output_sample (internalBuffer w) (internalBufferIndex w) (resampleRatio w)"
  from Suc.hyps have lt: "i < bufferSize w" by simp
  show ?case
  proof (cases "?sp i")
    case None
    with lt have "resample_loop w i out c = (out, c)"
      by (subst resample_loop_spec) simp
    with Suc.prems have "out' = out" "c' = c" by simp_all
    with None Suc.prems lt show ?thesis by auto
  next
    case (Some s)
    let ?c = "\<lfloor>float64 (real i * resampleRatio w)\<rfloor> + 1"
    from Some lt have "resample_loop w i out c = resample_loop w (Suc i) (out @ [s]) ?c"
      by (subst resample_loop_spec) simp
    with Suc.prems have run: "resample_loop w (Suc i) (out @ [s]) ?c = (out', c')"
      by simp
    have len: "length (out @ [s]) = Suc i" using Suc.prems by simp
    have le: "Suc i \<le> bufferSize w" using lt by simp
    have n: "n = bufferSize w - Suc i" using Suc.hyps by simp
    note IH = Suc.hyps(1) [OF n run len le]
    from IH have tk: "take (Suc i) out' = out @ [s]" and ge: "Suc i \<le> length out'" by simp_all
    have t1: "take i out' = out"
    proof -
      have "take i out' = take i (take (Suc i) out')" by (simp add: min_def)
      also have "\<dots> = out" using tk Suc.prems(2) by simp
      finally show ?thesis .
    qed
    have t2: "out' ! i = s"
    proof -
      have "out' ! i = take (Suc i) out' ! i" by simp
      also have "\<dots> = s" using tk Suc.prems(2) by (simp add: nth_append)
      finally show ?thesis .
    qed
    have all: "\<forall>j. i \<le> j \<and> j < length out' \<longrightarrow> ?sp j = Some (out' ! j)"
    proof (intro allI impI)
      fix j assume j: "i \<le> j \<and> j < length out'"
      show "?sp j = Some (out' ! j)"
      proof (cases "j = i")
        case True
        with t2 Some show ?thesis by simp
      next
        case False
        with j have "Suc i \<le> j \<and> j < length out'" by simp
        with IH show ?thesis by blast
      qed
    qed
    have c: "c' = (if length out' = i then c else \<lfloor>float64 (real (length out' - 1) * resampleRatio w)\<rfloor> + 1)"
      using IH ge by (auto split: if_splits)
    from IH t1 all c ge show ?thesis by simp
  qed
qed

lemma resampled_frame_spec:
  "length (resampled_frame w) \<le> bufferSize w
   \<and> (\<forall>j < length (resampled_frame w).
        stored_output_sample (internalBuffer w) (internalBufferIndex w) (resampleRatio w) j
          = Some (resampled_frame w ! j))
   \<and> (length (resampled_frame w) < bufferSize w \<longrightarrow>
        stored_output_sample (internalBuffer w) (internalBufferIndex w) (resampleRatio w)
          (length (resampled_frame w)) = None)
   \<and> consumed_input w = (if resampled_frame w = [] then 0
        else \<lfloor>float64 (real (length (resampled_frame w) - 1) * resampleRatio w)\<rfloor> + 1)"
proof -
  obtain out' c' where r: "resample_loop w 0 [] 0 = (out', c')" by (cases "resample_loop w 0 [] 0")
  from resample_loop_frame [OF r] show ?thesis
    by (simp add: resampled_frame_def consumed_input_def r)
qed

lemma posted_pcm:
  assumes "PcmData pcm \<in> set (fst (sendResampledBuffer w now))"
  shows "pcm = map quantize (resampled_frame w) \<and> resampled_frame w \<noteq> []
         \<and> internalBufferIndex w \<noteq> 0 \<and> \<not> isProcessing w"
  using assms by (auto simp: sendResampledBuffer_cases split: if_splits)



lemma clamp_sample_bounds: "- 1 \<le> clamp_sample s \<and> clamp_sample s \<le> 1"
  by (simp add: clamp_sample_def)

lemma truncate_toward_zero_bounds:
  assumes "- real_of_int n \<le> x" and "x \<le> real_of_int n"
  shows "- n \<le> truncate_toward_zero x \<and> truncate_toward_zero x \<le> n"
proof (cases "0 \<le> x")
  case True
  then have "0 \<le> \<lfloor>x\<rfloor>" by simp
  moreover have "\<lfloor>x\<rfloor> \<le> n" using assms(2) by (simp add: floor_le_iff)
  moreover have "0 \<le> n" using True assms(2) by linarith
  moreover have "truncate_toward_zero x = \<lfloor>x\<rfloor>" using True by (simp add: truncate_toward_zero_def)
  ultimately show ?thesis by linarith
next
  case False
  then have "\<lceil>x\<rceil> \<le> 0" by (simp add: ceiling_le_iff)
  moreover have "- n \<le> \<lceil>x\<rceil>" using assms(1) by (simp add: le_ceiling_iff)
  moreover have "0 \<le> n" using False assms(1) by linarith
  moreover have "truncate_toward_zero x = \<lceil>x\<rceil>" using False by (simp add: truncate_toward_zero_def)
  ultimately show ?thesis by linarith
qed

lemma toInt16_in_range:
  assumes "- 32768 \<le> truncate_toward_zero x" and "truncate_toward_zero x < 32768"
  shows "toInt16 x = truncate_toward_zero x"
proof -
  define t where "t = truncate_toward_zero x"
  have r: "- 32768 \<le> t" "t < 32768" using assms by (simp_all add: t_def)
  have "(let m = t mod 65536 in if 32768 \<le> m then m - 65536 else m) = t"
  proof (cases "0 \<le> t")
    case True
    with r have "t mod 65536 = t" by simp
    with r show ?thesis by (simp add: Let_def)
  next
    case False
    have "(t + 65536) mod 65536 = t + 65536"
      by (rule mod_pos_pos_trivial) (use r False in simp_all)
    then have "t mod 65536 = t + 65536" by simp
    with False r show ?thesis by (simp add: Let_def)
  qed
  then show ?thesis by (simp add: toInt16_def t_def)
qed

lemma quantize_truncates:
  "quantize s = truncate_toward_zero (clamp_sample s * 32767)
   \<and> - 32767 \<le> quantize s \<and> quantize s \<le> 32767"
proof -
  have "- real_of_int 32767 \<le> clamp_sample s * 32767" "clamp_sample s * 32767 \<le> real_of_int 32767"
    using clamp_sample_bounds [of s] by simp_all
  from truncate_toward_zero_bounds [OF this]
  have b: "- 32767 \<le> truncate_toward_zero (clamp_sample s * 32767)"
          "truncate_toward_zero (clamp_sample s * 32767) \<le> 32767" by simp_all
  then have "toInt16 (clamp_sample s * 32767) = truncate_toward_zero (clamp_sample s * 32767)"
    by (intro toInt16_in_range) simp_all
  with b show ?thesis by (simp add: quantize_def)
qed

text \<open>
  The product \<^verbatim>\<open>sample * 32767\<close> is exact in double arithmetic for every sample read from the
  single-precision output array: rounding it to a double changes nothing.
\<close>

lemma quantize_product_exact:
  "float64 (clamp_sample (float32 y) * 32767) = clamp_sample (float32 y) * 32767"
proof -
  define s where "s = float32 y"
  consider "1 \<le> s" | "s \<le> - 1" | "s = 0" | "\<bar>s\<bar> < 1" "s \<noteq> 0" by linarith
  then have "float64 (clamp_sample s * 32767) = clamp_sample s * 32767"
  proof cases
    case 1
    then have "clamp_sample s = 1" by (simp add: clamp_sample_def)
    then show ?thesis by (simp add: float_eval split del: if_split)
  next
    case 2
    then have "clamp_sample s = - 1" by (simp add: clamp_sample_def)
    then show ?thesis by (simp add: float_eval split del: if_split)
  next
    case 3
    then show ?thesis by (simp add: clamp_sample_def float64_zero)
  next
    case 4
    then have c: "clamp_sample s = s" by (simp add: clamp_sample_def)
    from 4 have y0: "y \<noteq> 0" by (auto simp: s_def float32_zero)
    from 4(1) have yb: "\<bar>y\<bar> < 2 powi 1101" unfolding s_def by (rule float32_bounded)
    from ieee_round_grid [OF y0 yb, of 24 "- 126"] obtain m q where
      g: "s = real_of_int m * 2 powi q" and m: "\<bar>m\<bar> \<le> 2 ^ 24" and q: "- 149 \<le> q"
      by (auto simp: s_def float32_def)
    from 4 g have m0: "m \<noteq> 0" by auto
    have x: "s * 32767 = real_of_int (m * 32767) * 2 powi q" by (simp add: g)
    have "\<bar>s * 32767\<bar> < 32767" using 4 by (simp add: abs_mult)
    also have "(32767::real) \<le> 2 powi 1101"
    proof -
      have "(2::real) powi 15 \<le> 2 powi 1101" by (rule power_int_increasing) simp_all
      then show ?thesis by simp
    qed
    finally have b: "\<bar>real_of_int (m * 32767) * 2 powi q\<bar> < 2 powi 1101"
      unfolding x .
    have "\<bar>m * 32767\<bar> < 2 ^ 53" using m by (simp add: abs_mult)
    from ieee_round_exact [OF _ this _ _ b, of "- 1022"] m0 q
    have f: "float64 (real_of_int (m * 32767) * 2 powi q) = real_of_int (m * 32767) * 2 powi q"
      by (simp add: float64_def)
    show ?thesis unfolding c x by (rule f)
  qed
  then show ?thesis by (simp add: s_def)
qed

text \<open>
  Claim C2, as amended. Every sample of a posted frame is the clamped float sample times
  32767 with the fraction cut off (towards zero), not rounded; it lies between \<open>-32767\<close>
  and \<open>32767\<close>, so the 16-bit store never wraps.
\<close>

theorem C2_quantize_truncates:
  assumes "PcmData pcm \<in> set (fst (sendResampledBuffer w now))"
  shows "pcm = map (\<lambda>s. truncate_toward_zero (clamp_sample s * 32767)) (resampled_frame w)
       \<and> length pcm = length (resampled_frame w)
       \<and> list_all (\<lambda>x. - 32767 \<le> x \<and> x \<le> 32767) pcm"
proof -
  from posted_pcm [OF assms] have p: "pcm = map quantize (resampled_frame w)" by simp
  have q: "quantize = (\<lambda>s. truncate_toward_zero (clamp_sample s * 32767))"
    by (rule ext) (simp add: quantize_truncates)
  have b: "- 32767 \<le> quantize s \<and> quantize s \<le> 32767" for s
    using quantize_truncates [of s] by blast
  have "list_all (\<lambda>x. - 32767 \<le> x \<and> x \<le> 32767) (map quantize (resampled_frame w))"
    unfolding list_all_iff using b by auto
  with p show ?thesis unfolding q [symmetric] by simp
qed

lemma store_input_fields:
  assumes "store_input w ch = Some w1"
  shows "bufferSize w1 = bufferSize w \<and> resampleRatio w1 = resampleRatio w
       \<and> isProcessing w1 = isProcessing w \<and> length (internalBuffer w1) = length (internalBuffer w)"
  using assms
  by (auto simp: store_input_def typed_array_set_def Let_def split: if_splits)

lemma sendResampledBuffer_fields:
  "bufferSize (snd (sendResampledBuffer w now)) = bufferSize w
   \<and> resampleRatio (snd (sendResampledBuffer w now)) = resampleRatio w
   \<and> length (internalBuffer (snd (sendResampledBuffer w now))) = length (internalBuffer w)"
  by (simp add: sendResampledBuffer_cases copyWithin0_def Let_def)

lemma emit_if_due_fields:
  "bufferSize (snd (emit_if_due w now)) = bufferSize w
   \<and> resampleRatio (snd (emit_if_due w now)) = resampleRatio w
   \<and> length (internalBuffer (snd (emit_if_due w now))) = length (internalBuffer w)"
  using sendResampledBuffer_fields [of w now] by (simp add: emit_if_due_def Let_def)

lemma posted_pcm_length:
  assumes "PcmData pcm \<in> set (fst (sendResampledBuffer w now))"
  shows "1 \<le> length pcm \<and> length pcm \<le> bufferSize w"
proof -
  from posted_pcm [OF assms] have "pcm = map quantize (resampled_frame w)" "resampled_frame w \<noteq> []"
    by simp_all
  moreover have "length (resampled_frame w) \<le> bufferSize w"
    using resampled_frame_spec [of w] by simp
  ultimately show ?thesis by (cases "resampled_frame w") simp_all
qed

lemma process_posted:
  assumes "process w now inp = Some (alive, posted, w')"
  shows "alive \<and> bufferSize w' = bufferSize w
       \<and> (\<forall>pcm. PcmData pcm \<in> set posted \<longrightarrow> 1 \<le> length pcm \<and> length pcm \<le> bufferSize w)"
proof -
  from assms obtain w1 where w1: "(case inp of None \<Rightarrow> Some w
            | Some ch \<Rightarrow> if 0 < length ch then store_input w ch else Some w) = Some w1"
    and e: "emit_if_due w1 now = (posted, w')" and a: "alive"
    by (auto simp: process_def split: option.splits prod.splits)
  from w1 have b1: "bufferSize w1 = bufferSize w"
    using store_input_fields by (auto split: option.splits if_splits)
  from e emit_if_due_fields [of w1 now] have b2: "bufferSize w' = bufferSize w1" by simp
  have "\<forall>pcm. PcmData pcm \<in> set posted \<longrightarrow> 1 \<le> length pcm \<and> length pcm \<le> bufferSize w1"
    using e posted_pcm_length [of _ w1 now]
    by (auto simp: emit_if_due_def Let_def split: if_splits)
  with a b1 b2 show ?thesis by simp
qed

text \<open>
  Claim C3. Whatever blocks a run of \<^verbatim>\<open>process\<close> calls receives, every PCM frame posted
  has at least one and at most \<^verbatim>\<open>bufferSize\<close> samples.
\<close>

theorem C3_frame_length:
  assumes "PcmData pcm \<in> set (fst (run_process w calls))"
  shows "1 \<le> length pcm \<and> length pcm \<le> bufferSize w"
  using assms
proof (induction calls arbitrary: w)
  case Nil
  then show ?case by simp
next
  case (Cons call calls)
  obtain now inp where call: "call = (now, inp)" by (cases call)
  show ?case
  proof (cases "process w now inp")
    case None
    with Cons.prems call show ?thesis by simp
  next
    case (Some r)
    obtain alive posted w1 where r: "r = (alive, posted, w1)" by (cases r)
    from Some r process_posted have p: "bufferSize w1 = bufferSize w"
      "\<forall>pcm. PcmData pcm \<in> set posted \<longrightarrow> 1 \<le> length pcm \<and> length pcm \<le> bufferSize w"
      by blast+
    from Cons.prems call Some r
    have "PcmData pcm \<in> set posted \<or> PcmData pcm \<in> set (fst (run_process w1 calls))"
      by (auto split: prod.splits)
    then show ?thesis
    proof
      assume "PcmData pcm \<in> set posted"
      with p show ?thesis by blast
    next
      assume "PcmData pcm \<in> set (fst (run_process w1 calls))"
      from Cons.IH [OF this] p show ?thesis by simp
    qed
  qed
qed

lemma store_input_result:
  "store_input w ch =
     Some (if internalBufferIndex w + length ch \<le> length (internalBuffer w)
           then w\<lparr>internalBuffer :=
                    take (internalBufferIndex w) (internalBuffer w) @ ch
                      @ drop (internalBufferIndex w + length ch) (internalBuffer w),
                  internalBufferIndex := internalBufferIndex w + length ch\<rparr>
           else if internalBufferIndex w < length (internalBuffer w)
           then w\<lparr>internalBuffer :=
                    take (internalBufferIndex w) (internalBuffer w)
                      @ take (length (internalBuffer w) - internalBufferIndex w) ch,
                  internalBufferIndex := length (internalBuffer w)\<rparr>
           else w)"
proof -
  have "nat (int (length (internalBuffer w)) - int (internalBufferIndex w))
          = length (internalBuffer w) - internalBufferIndex w" by simp
  then show ?thesis
    by (auto simp: store_input_def typed_array_set_def Let_def min_def)
qed

lemma store_input_inv:
  assumes "worklet_inv w"
  shows "\<exists>w1. store_input w ch = Some w1 \<and> worklet_inv w1
           \<and> length (internalBuffer w1) = length (internalBuffer w)
           \<and> (length (internalBuffer w) < internalBufferIndex w + length ch \<longrightarrow>
                internalBufferIndex w1 = length (internalBuffer w))"
  using assms by (auto simp: store_input_result worklet_inv_def)

lemma frame_nonempty:
  assumes "0 < bufferSize w" and "0 < internalBufferIndex w"
  shows "resampled_frame w \<noteq> []"
proof
  assume e: "resampled_frame w = []"
  with assms(1) resampled_frame_spec [of w]
  have "stored_output_sample (internalBuffer w) (internalBufferIndex w) (resampleRatio w) 0 = None"
    by simp
  with assms(2) show False
    by (simp add: stored_output_sample_def float64_zero split: if_splits)
qed

lemma consumed_positive:
  assumes "resampled_frame w \<noteq> []" and "0 \<le> resampleRatio w"
  shows "0 < consumed_input w"
proof -
  have "0 \<le> real (length (resampled_frame w) - 1) * resampleRatio w" using assms(2) by simp
  then have "0 \<le> float64 (real (length (resampled_frame w) - 1) * resampleRatio w)"
    by (rule float64_nonneg)
  then have "0 \<le> \<lfloor>float64 (real (length (resampled_frame w) - 1) * resampleRatio w)\<rfloor>"
    by simp
  with assms(1) resampled_frame_spec [of w] show ?thesis by simp
qed

lemma consumed_le_index:
  assumes "resampled_frame w \<noteq> []"
  shows "consumed_input w \<le> int (internalBufferIndex w)"
proof -
  define n where "n = length (resampled_frame w) - 1"
  from assms have n: "n < length (resampled_frame w)" by (simp add: n_def)
  with resampled_frame_spec [of w]
  have "stored_output_sample (internalBuffer w) (internalBufferIndex w) (resampleRatio w) n
          = Some (resampled_frame w ! n)" by blast
  then have "\<lfloor>float64 (real n * resampleRatio w)\<rfloor> < int (internalBufferIndex w)"
    by (auto simp: stored_output_sample_def Let_def split: if_splits)
  moreover from assms resampled_frame_spec [of w]
  have "consumed_input w = \<lfloor>float64 (real n * resampleRatio w)\<rfloor> + 1" by (simp add: n_def)
  ultimately show ?thesis by simp
qed

lemma sendResampledBuffer_inv:
  assumes "worklet_inv w"
  shows "worklet_inv (snd (sendResampledBuffer w now))"
  using assms by (auto simp: sendResampledBuffer_cases worklet_inv_def copyWithin0_def Let_def)

lemma sendResampledBuffer_frees:
  assumes "worklet_inv w" and "0 < internalBufferIndex w"
  shows "internalBufferIndex (snd (sendResampledBuffer w now)) < internalBufferIndex w"
proof -
  from assms have ne: "resampled_frame w \<noteq> []" by (simp add: frame_nonempty worklet_inv_def)
  with assms have c: "0 < consumed_input w" by (simp add: consumed_positive worklet_inv_def)
  from assms ne c show ?thesis
    by (auto simp: sendResampledBuffer_cases worklet_inv_def)
qed

lemma emit_if_due_inv:
  assumes "worklet_inv w"
  shows "worklet_inv (snd (emit_if_due w now))"
  using assms sendResampledBuffer_inv [of w now] by (simp add: emit_if_due_def Let_def)

lemma emit_if_due_full:
  assumes "worklet_inv w" and "internalBufferIndex w = length (internalBuffer w)"
  shows "internalBufferIndex (snd (emit_if_due w now)) < length (internalBuffer w)"
proof -
  from assms have "emit_if_due w now = sendResampledBuffer w now"
    by (simp add: emit_if_due_def Let_def worklet_inv_def)
  moreover from assms have "0 < internalBufferIndex w" by (simp add: worklet_inv_def)
  ultimately show ?thesis using sendResampledBuffer_frees [OF assms(1), of now] assms(2) by simp
qed

lemma new_AudioProcessor_inv:
  assumes "0 \<le> nativeRate" and "0 \<le> targetOpt"
  shows "worklet_inv (new_AudioProcessor nativeRate targetOpt sizeOpt now)"
proof -
  define tsr where "tsr = js_or targetOpt 16000"
  define bs where "bs = js_or sizeOpt 4096"
  define r where "r = float64 (nativeRate / tsr)"
  define m where "m = float64 (real bs * r)"
  have tsr: "0 < tsr" using assms(2) by (simp add: tsr_def js_or_def)
  have bs: "0 < bs" by (simp add: bs_def js_or_def)
  have "0 \<le> nativeRate / tsr" using assms(1) tsr by simp
  then have r: "0 \<le> r" unfolding r_def by (rule float64_nonneg)
  have "\<lfloor>m\<rfloor> \<le> \<lceil>m\<rceil>" by (rule floor_le_ceiling)
  then have f: "\<lfloor>m\<rfloor> \<le> max (\<lceil>m\<rceil> + 128) (int bs * 2)" by linarith
  have p: "0 < max (\<lceil>m\<rceil> + 128) (int bs * 2)" using bs by simp
  show ?thesis
    unfolding new_AudioProcessor_def Let_def tsr_def [symmetric] bs_def [symmetric]
      r_def [symmetric] m_def [symmetric]
    using bs r f p by (simp add: worklet_inv_def m_def [symmetric])
qed

lemma emit_if_due_at_full:
  assumes "worklet_inv w" and "internalBufferIndex w = length (internalBuffer w)"
  shows "resampled_frame w \<noteq> [] \<and> 0 < consumed_input w
       \<and> consumed_input w \<le> int (length (internalBuffer w))
       \<and> emit_if_due w now =
           ([DebugPosting (length (resampled_frame w)) (consumed_input w),
             PcmData (map quantize (resampled_frame w))],
            w\<lparr>isProcessing := False, lastSendTime := now,
              internalBuffer :=
                copyWithin0 (internalBuffer w) (nat (consumed_input w)) (length (internalBuffer w)),
              internalBufferIndex := length (internalBuffer w) - nat (consumed_input w)\<rparr>)"
proof -
  from assms have pos: "0 < internalBufferIndex w" by (simp add: worklet_inv_def)
  from assms have e: "emit_if_due w now = sendResampledBuffer w now"
    by (simp add: emit_if_due_def Let_def worklet_inv_def)
  from assms pos have ne: "resampled_frame w \<noteq> []" by (simp add: frame_nonempty worklet_inv_def)
  with assms have c: "0 < consumed_input w" by (simp add: consumed_positive worklet_inv_def)
  from consumed_le_index [OF ne] assms(2)
  have le: "consumed_input w \<le> int (length (internalBuffer w))" by simp
  from assms pos ne c le have "sendResampledBuffer w now =
           ([DebugPosting (length (resampled_frame w)) (consumed_input w),
             PcmData (map quantize (resampled_frame w))],
            w\<lparr>isProcessing := False, lastSendTime := now,
              internalBuffer :=
                copyWithin0 (internalBuffer w) (nat (consumed_input w)) (length (internalBuffer w)),
              internalBufferIndex := length (internalBuffer w) - nat (consumed_input w)\<rparr>)"
    by (simp add: sendResampledBuffer_cases worklet_inv_def)
  with e ne c le show ?thesis by simp
qed

lemma process_block:
  assumes "worklet_inv w"
  shows "\<exists>posted w'. process w now (Some ch) = Some (True, posted, w')
           \<and> internalBufferIndex w' \<le> length (internalBuffer w')
           \<and> length (internalBuffer w') = length (internalBuffer w)
           \<and> worklet_inv w'
           \<and> (internalBufferIndex w + length ch \<le> length (internalBuffer w) \<longrightarrow>
                (posted, w') =
                  emit_if_due
                    (w\<lparr>internalBuffer :=
                         take (internalBufferIndex w) (internalBuffer w) @ ch
                           @ drop (internalBufferIndex w + length ch) (internalBuffer w),
                       internalBufferIndex := internalBufferIndex w + length ch\<rparr>) now)
           \<and> (length (internalBuffer w) < internalBufferIndex w + length ch \<longrightarrow>
                (let full = w\<lparr>internalBuffer :=
                                take (internalBufferIndex w) (internalBuffer w)
                                  @ take (length (internalBuffer w) - internalBufferIndex w) ch,
                              internalBufferIndex := length (internalBuffer w)\<rparr>
                 in store_input w ch = Some full
                  \<and> resampled_frame full \<noteq> []
                  \<and> 0 < consumed_input full
                  \<and> consumed_input full \<le> int (length (internalBuffer w))
                  \<and> posted = [DebugPosting (length (resampled_frame full)) (consumed_input full),
                               PcmData (map quantize (resampled_frame full))]
                  \<and> w' = full\<lparr>isProcessing := False, lastSendTime := now,
                               internalBuffer :=
                                 copyWithin0 (internalBuffer full) (nat (consumed_input full))
                                   (length (internalBuffer w)),
                               internalBufferIndex :=
                                 length (internalBuffer w) - nat (consumed_input full)\<rparr>
                  \<and> internalBufferIndex w' < length (internalBuffer w')))"
proof -
  from store_input_inv [OF assms, of ch] obtain w1 where
    s: "store_input w ch = Some w1" and i1: "worklet_inv w1"
    and l1: "length (internalBuffer w1) = length (internalBuffer w)"
    by blast
  define w0 where "w0 = (if 0 < length ch then w1 else w)"
  have i0: "worklet_inv w0" and l0: "length (internalBuffer w0) = length (internalBuffer w)"
    using i1 l1 assms by (simp_all add: w0_def)
  obtain posted w' where e: "emit_if_due w0 now = (posted, w')" by (cases "emit_if_due w0 now")
  have p: "process w now (Some ch) = Some (True, posted, w')"
    using s e by (cases "ch = []") (simp_all add: process_def w0_def)
  have i': "worklet_inv w'" using emit_if_due_inv [OF i0, of now] e by simp
  have l': "length (internalBuffer w') = length (internalBuffer w)"
    using emit_if_due_fields [of w0 now] e l0 by simp
  have fits: "(posted, w') =
                  emit_if_due
                    (w\<lparr>internalBuffer :=
                         take (internalBufferIndex w) (internalBuffer w) @ ch
                           @ drop (internalBufferIndex w + length ch) (internalBuffer w),
                       internalBufferIndex := internalBufferIndex w + length ch\<rparr>) now"
    if o: "internalBufferIndex w + length ch \<le> length (internalBuffer w)"
  proof (cases "ch = []")
    case True
    then have "w0 = w" by (simp add: w0_def)
    with e True show ?thesis by simp
  next
    case False
    with s o have "w0 = w\<lparr>internalBuffer :=
                         take (internalBufferIndex w) (internalBuffer w) @ ch
                           @ drop (internalBufferIndex w + length ch) (internalBuffer w),
                       internalBufferIndex := internalBufferIndex w + length ch\<rparr>"
      by (simp add: w0_def store_input_result)
    with e show ?thesis by simp
  qed
  define full where "full = w\<lparr>internalBuffer :=
                                take (internalBufferIndex w) (internalBuffer w)
                                  @ take (length (internalBuffer w) - internalBufferIndex w) ch,
                              internalBufferIndex := length (internalBuffer w)\<rparr>"
  have over: "store_input w ch = Some full
                  \<and> resampled_frame full \<noteq> []
                  \<and> 0 < consumed_input full
                  \<and> consumed_input full \<le> int (length (internalBuffer w))
                  \<and> posted = [DebugPosting (length (resampled_frame full)) (consumed_input full),
                               PcmData (map quantize (resampled_frame full))]
                  \<and> w' = full\<lparr>isProcessing := False, lastSendTime := now,
                               internalBuffer :=
                                 copyWithin0 (internalBuffer full) (nat (consumed_input full))
                                   (length (internalBuffer w)),
                               internalBufferIndex :=
                                 length (internalBuffer w) - nat (consumed_input full)\<rparr>
                  \<and> internalBufferIndex w' < length (internalBuffer w')"
    if o: "length (internalBuffer w) < internalBufferIndex w + length ch"
  proof -
    from o assms have ne: "0 < length ch" by (cases ch) (auto simp: worklet_inv_def)
    have st: "store_input w ch = Some full"
      using o assms unfolding full_def
      by (cases "internalBufferIndex w < length (internalBuffer w)")
        (simp_all add: store_input_result worklet_inv_def)
    with s ne have w0: "w0 = full" by (simp add: w0_def)
    have lf: "length (internalBuffer full) = length (internalBuffer w)"
      using l0 w0 by simp
    have xf: "internalBufferIndex full = length (internalBuffer full)"
      using lf by (simp add: full_def)
    from emit_if_due_at_full [OF i0 [unfolded w0] xf, of now] e w0 lf
    have a: "resampled_frame full \<noteq> []" "0 < consumed_input full"
      "consumed_input full \<le> int (length (internalBuffer w))"
      "posted = [DebugPosting (length (resampled_frame full)) (consumed_input full),
                 PcmData (map quantize (resampled_frame full))]"
      "w' = full\<lparr>isProcessing := False, lastSendTime := now,
                               internalBuffer :=
                                 copyWithin0 (internalBuffer full) (nat (consumed_input full))
                                   (length (internalBuffer w)),
                               internalBufferIndex :=
                                 length (internalBuffer w) - nat (consumed_input full)\<rparr>"
      by simp_all
    from a(2) a(3) i' have pos: "0 < length (internalBuffer w)" by linarith
    from a(5) a(2) pos l' have "internalBufferIndex w' < length (internalBuffer w')"
      by simp
    with st a show ?thesis by simp
  qed
  from i' have b: "internalBufferIndex w' \<le> length (internalBuffer w')"
    by (simp add: worklet_inv_def)
  from p b l' i' fits over show ?thesis
    unfolding Let_def full_def [symmetric] by blast
qed

text \<open>
  The accumulator starts as zeros and only ever receives elements of input blocks, moved
  but not recomputed: it holds single-precision numbers as long as the input blocks do.
\<close>

lemma new_AudioProcessor_float32:
  "float32_values (internalBuffer (new_AudioProcessor nativeRate targetOpt sizeOpt now))"
  by (simp add: new_AudioProcessor_def Let_def float32_values_def list_all_iff float32_zero)

lemma float32_values_append:
  "float32_values (xs @ ys) \<longleftrightarrow> float32_values xs \<and> float32_values ys"
  by (simp add: float32_values_def)

lemma float32_values_take: "float32_values xs \<Longrightarrow> float32_values (take n xs)"
  unfolding float32_values_def list_all_iff using set_take_subset [of n xs] by blast

lemma float32_values_drop: "float32_values xs \<Longrightarrow> float32_values (drop n xs)"
  unfolding float32_values_def list_all_iff using set_drop_subset [of n xs] by blast

lemma copyWithin0_float32:
  assumes "float32_values xs"
  shows "float32_values (copyWithin0 xs start fin)"
  using assms
  by (simp add: copyWithin0_def Let_def float32_values_append float32_values_take
        float32_values_drop)

lemma store_input_float32:
  assumes "store_input w ch = Some w1" and "float32_values (internalBuffer w)"
    and "float32_values ch"
  shows "float32_values (internalBuffer w1)"
  using assms
  by (auto simp: store_input_result float32_values_append float32_values_take
        float32_values_drop split: if_splits)

lemma emit_if_due_float32:
  assumes "float32_values (internalBuffer w)"
  shows "float32_values (internalBuffer (snd (emit_if_due w now)))"
  using assms
  by (simp add: emit_if_due_def Let_def sendResampledBuffer_cases copyWithin0_float32)

lemma process_float32:
  assumes "process w now inp = Some (alive, posted, w')"
    and "float32_values (internalBuffer w)"
    and "\<And>ch. inp = Some ch \<Longrightarrow> float32_values ch"
  shows "float32_values (internalBuffer w')"
proof -
  from assms(1) obtain w1 where w1: "(case inp of None \<Rightarrow> Some w
            | Some ch \<Rightarrow> if 0 < length ch then store_input w ch else Some w) = Some w1"
    and e: "emit_if_due w1 now = (posted, w')"
    by (auto simp: process_def split: option.splits prod.splits)
  from w1 assms(2) assms(3) have "float32_values (internalBuffer w1)"
    using store_input_float32 by (auto split: option.splits if_splits)
  from emit_if_due_float32 [OF this, of now] e show ?thesis by simp
qed

lemma process_inv:
  assumes "worklet_inv w"
  shows "\<exists>posted w'. process w now inp = Some (True, posted, w') \<and> worklet_inv w'"
proof (cases inp)
  case None
  obtain posted w' where e: "emit_if_due w now = (posted, w')" by (cases "emit_if_due w now")
  with None emit_if_due_inv [OF assms, of now] show ?thesis by (simp add: process_def)
next
  case (Some ch)
  with process_block [OF assms, of now ch] show ?thesis by blast
qed

lemma run_process_inv:
  assumes "worklet_inv w"
  shows "worklet_inv (snd (run_process w calls))"
  using assms
proof (induction calls arbitrary: w)
  case Nil
  then show ?case by simp
next
  case (Cons call calls)
  obtain now inp where call: "call = (now, inp)" by (cases call)
  from process_inv [OF Cons.prems, of now inp] obtain posted w' where
    p: "process w now inp = Some (True, posted, w')" and i: "worklet_inv w'" by blast
  from Cons.IH [OF i] p call show ?case by (simp add: split_beta)
qed

text \<open>
  Claim C4. In a state the constructor and \<^verbatim>\<open>process\<close> produce, \<^verbatim>\<open>process\<close> never throws
  on an input block and returns \<^verbatim>\<open>true\<close>; the write index stays within the accumulator,
  whose length does not change. A block that fits is stored whole behind the old contents
  before the emission triggers are tested. When the block is longer than the room left,
  exactly the prefix that fits is stored behind the old contents and the rest is dropped;
  the accumulator is then full, so \<^verbatim>\<open>process\<close> emits at once: it posts the frame resampled
  from the full accumulator, which is not empty, moves the samples the frame did not
  consume to the front and sets the write index behind them, below the accumulator's
  length, so that the next block finds room.
\<close>

theorem C4_overflow_drops_excess:
  assumes "worklet_inv w"
  shows "\<exists>posted w'. process w now (Some ch) = Some (True, posted, w')
           \<and> internalBufferIndex w' \<le> length (internalBuffer w')
           \<and> length (internalBuffer w') = length (internalBuffer w)
           \<and> worklet_inv w'
           \<and> (internalBufferIndex w + length ch \<le> length (internalBuffer w) \<longrightarrow>
                (posted, w') =
                  emit_if_due
                    (w\<lparr>internalBuffer :=
                         take (internalBufferIndex w) (internalBuffer w) @ ch
                           @ drop (internalBufferIndex w + length ch) (internalBuffer w),
                       internalBufferIndex := internalBufferIndex w + length ch\<rparr>) now)
           \<and> (length (internalBuffer w) < internalBufferIndex w + length ch \<longrightarrow>
                (let full = w\<lparr>internalBuffer :=
                                take (internalBufferIndex w) (internalBuffer w)
                                  @ take (length (internalBuffer w) - internalBufferIndex w) ch,
                              internalBufferIndex := length (internalBuffer w)\<rparr>
                 in store_input w ch = Some full
                  \<and> resampled_frame full \<noteq> []
                  \<and> 0 < consumed_input full
                  \<and> consumed_input full \<le> int (length (internalBuffer w))
                  \<and> posted = [DebugPosting (length (resampled_frame full)) (consumed_input full),
                               PcmData (map quantize (resampled_frame full))]
                  \<and> w' = full\<lparr>isProcessing := False, lastSendTime := now,
                               internalBuffer :=
                                 copyWithin0 (internalBuffer full) (nat (consumed_input full))
                                   (length (internalBuffer w)),
                               internalBufferIndex :=
                                 length (internalBuffer w) - nat (consumed_input full)\<rparr>
                  \<and> internalBufferIndex w' < length (internalBuffer w')))"
  by (rule process_block [OF assms])

subsection \<open>The claims at concrete inputs\<close>

lemmas worklet_eval = float_eval example_tie_def example_filled_def example_quarter_def
  example_processor_def tie_block_def
  new_AudioProcessor_def js_or_def resampled_frame_def consumed_input_def resample_loop.simps
  sendResampledBuffer_def copyWithin0_def quantize_def toInt16_def truncate_toward_zero_def
  clamp_sample_def store_input_def typed_array_set_def emit_if_due_def process_def
  MAX_BUFFER_AGE_SECONDS_def stored_output_sample_def spec_output_sample_def quantize_round_def
  worklet_inv_def

text \<open>
  The rounding at some known values: one tenth as a double and as a single-precision
  number, and a product whose integer part depends on the rounding (at a native rate of
  37800 Hz the position \<open>400 * ratio\<close> is 945 exactly and just below it in doubles).
\<close>

lemma float_examples:
  "float64 (1 / 10) = 3602879701896397 / 2 ^ 55"
  "float32 (1 / 10) = 13421773 / 2 ^ 27"
  "\<lfloor>float64 (400 * float64 (37800 / 16000))\<rfloor> = 944"
  "\<lfloor>400 * (37800 / 16000 :: real)\<rfloor> = 945"
  by (simp_all add: float_eval split del: if_split)

lemma example_filled_reached:
  "store_input example_processor [0, 1 / 2, 1, 1 / 2] = Some example_filled"
  by (simp add: worklet_eval split del: if_split)

lemma example_quarter_reached:
  "store_input (new_AudioProcessor 16000 16000 1 0) [1 / 4] = Some example_quarter"
  by (simp add: worklet_eval split del: if_split)

lemma example_tie_reached:
  "store_input example_processor tie_block = Some example_tie"
  by (simp add: worklet_eval split del: if_split)



theorem C2_round_counterexample:
  "fst (sendResampledBuffer example_quarter 0) = [DebugPosting 1 1, PcmData [8191]]
   \<and> resampled_frame example_quarter = [1 / 4]
   \<and> map quantize_round (resampled_frame example_quarter) = [8192]"
  by (simp add: worklet_eval round_def split del: if_split)

theorem C2_quantize_truncates_witness:
  "PcmData [0, 24575, 16383] \<in> set (fst (sendResampledBuffer example_filled 1))
   \<and> [0, 24575, 16383]
       = map (\<lambda>s. truncate_toward_zero (clamp_sample s * 32767)) (resampled_frame example_filled)
   \<and> resampled_frame example_filled = [0, 3 / 4, 1 / 2]
   \<and> list_all (\<lambda>x. - 32767 \<le> x \<and> x \<le> 32767) [0, 24575, 16383 :: int]"
proof -
  have h1: "PcmData [0, 24575, 16383] \<in> set (fst (sendResampledBuffer example_filled 1))"
    by (simp add: worklet_eval split del: if_split)
  have v: "resampled_frame example_filled = [0, 3 / 4, 1 / 2]" by (simp add: worklet_eval split del: if_split)
  from C2_quantize_truncates [OF h1] h1 v show ?thesis by blast
qed

theorem C3_frame_length_witness:
  "PcmData [0, 24575, 16383]
     \<in> set (fst (run_process example_processor [(1, Some [0, 1 / 2, 1, 1 / 2])]))
   \<and> 1 \<le> length [0, 24575, 16383 :: int]
   \<and> length [0, 24575, 16383 :: int] \<le> bufferSize example_processor"
proof -
  have h1: "PcmData [0, 24575, 16383]
     \<in> set (fst (run_process example_processor [(1, Some [0, 1 / 2, 1, 1 / 2])]))"
    by (simp add: worklet_eval split del: if_split)
  from C3_frame_length [OF h1] h1 show ?thesis by blast
qed

theorem C4_overflow_drops_excess_witness:
  "worklet_inv example_filled
   \<and> length (internalBuffer example_filled)
       < internalBufferIndex example_filled + length (replicate 200 (1 / 4 :: real))
   \<and> store_input example_filled (replicate 200 (1 / 4))
       = Some (example_filled\<lparr>internalBuffer := [0, 1 / 2, 1, 1 / 2] @ replicate 130 (1 / 4),
                              internalBufferIndex := 134\<rparr>)
   \<and> (\<exists>posted w'. process example_filled 1 (Some (replicate 200 (1 / 4)))
                      = Some (True, posted, w')
         \<and> posted = [DebugPosting 4 5, PcmData [0, 24575, 16383, 8191]]
         \<and> internalBufferIndex w' = 129
         \<and> length (internalBuffer w') = 134
         \<and> take 129 (internalBuffer w') = replicate 129 (1 / 4))"
proof -
  define full where
    "full = example_filled\<lparr>internalBuffer := [0, 1 / 2, 1, 1 / 2] @ replicate 130 (1 / 4),
                            internalBufferIndex := 134\<rparr>"
  have h1: "worklet_inv example_filled"
    by (simp add: worklet_eval split del: if_split)
  have h2: "length (internalBuffer example_filled)
       < internalBufferIndex example_filled + length (replicate 200 (1 / 4 :: real))"
    by (simp add: worklet_eval split del: if_split)
  have l: "length (internalBuffer example_filled) = 134"
    by (simp add: worklet_eval split del: if_split)
  have f: "example_filled\<lparr>internalBuffer :=
               take (internalBufferIndex example_filled) (internalBuffer example_filled)
                 @ take (length (internalBuffer example_filled)
                         - internalBufferIndex example_filled) (replicate 200 (1 / 4)),
             internalBufferIndex := length (internalBuffer example_filled)\<rparr> = full"
    unfolding full_def by (simp add: worklet_eval split del: if_split)
  have r: "resampled_frame full = [0, 3 / 4, 1 / 2, 1 / 4]"
    unfolding full_def by (simp add: worklet_eval split del: if_split)
  have c: "consumed_input full = 5"
    unfolding full_def by (simp add: worklet_eval split del: if_split)
  have q: "map quantize [0, 3 / 4, 1 / 2, 1 / 4] = [0, 24575, 16383, 8191]"
    by (simp add: worklet_eval split del: if_split)
  have t: "take 129 (copyWithin0 (internalBuffer full) 5 134) = replicate 129 (1 / 4)"
    unfolding full_def by (simp add: worklet_eval split del: if_split)
  from C4_overflow_drops_excess [OF h1, of 1 "replicate 200 (1 / 4)"] h2
  obtain posted w' where
    p: "process example_filled 1 (Some (replicate 200 (1 / 4))) = Some (True, posted, w')"
    and n: "length (internalBuffer w') = length (internalBuffer example_filled)"
    and s: "store_input example_filled (replicate 200 (1 / 4)) = Some full"
    and o: "posted = [DebugPosting (length (resampled_frame full)) (consumed_input full),
                      PcmData (map quantize (resampled_frame full))]"
    and w: "w' = full\<lparr>isProcessing := False, lastSendTime := 1,
                   internalBuffer :=
                     copyWithin0 (internalBuffer full) (nat (consumed_input full))
                       (length (internalBuffer example_filled)),
                   internalBufferIndex :=
                     length (internalBuffer example_filled) - nat (consumed_input full)\<rparr>"
    unfolding Let_def f by blast
  from o r c q have o': "posted = [DebugPosting 4 5, PcmData [0, 24575, 16383, 8191]]" by simp
  from w c l have x: "internalBufferIndex w' = 129" by simp
  from w c l t have b: "take 129 (internalBuffer w') = replicate 129 (1 / 4)" by simp
  from h1 h2 s p o' x n l b show ?thesis unfolding full_def by auto
qed

section \<open>Properties of the base64 helpers\<close>

lemma index_of_nth:
  assumes "distinct xs" and "n < length xs"
  shows "index_of (xs ! n) xs = Some n"
  using assms
proof (induction xs arbitrary: n)
  case Nil
  then show ?case by simp
next
  case (Cons y ys)
  show ?case
  proof (cases n)
    case 0
    then show ?thesis by simp
  next
    case (Suc m)
    with Cons.prems have "ys ! m \<in> set ys" "y \<notin> set ys" by simp_all
    then have "ys ! m \<noteq> y" by blast
    with Suc Cons show ?thesis by simp
  qed
qed

lemma index_of_None: "x \<notin> set xs \<Longrightarrow> index_of x xs = None"
  by (induction xs) auto

lemma base64_alphabet_distinct: "distinct base64_alphabet"
  by code_simp

lemma base64_alphabet_length: "length base64_alphabet = 64"
  by code_simp

lemma base64_value_char:
  "n < 64 \<Longrightarrow> base64_value (base64_char n) = Some n"
  unfolding base64_value_def base64_char_def
  by (rule index_of_nth) (simp_all add: base64_alphabet_distinct base64_alphabet_length)

lemma base64_value_pad: "base64_value CHR ''='' = None"
  by code_simp

lemma base64_char_not_pad: "n < 64 \<Longrightarrow> base64_char n \<noteq> CHR ''=''"
  using base64_value_char [of n] base64_value_pad by auto

lemma base64_char_not_space: "n < 64 \<Longrightarrow> \<not> is_ascii_whitespace (base64_char n)"
proof
  assume n: "n < 64" and w: "is_ascii_whitespace (base64_char n)"
  have "\<forall>c \<in> set [CHR 0x09, CHR 0x0A, CHR 0x0C, CHR 0x0D, CHR 0x20]. base64_value c = None"
    by code_simp
  with w have "base64_value (base64_char n) = None"
    unfolding is_ascii_whitespace_def by blast
  with base64_value_char [OF n] show False by simp
qed

lemma pad_not_space: "\<not> is_ascii_whitespace CHR ''=''"
  by code_simp

lemma sextets_bound:
  "\<forall>x \<in> set bs. x < 256 \<Longrightarrow> \<forall>s \<in> set (sextets bs). s < 64"
  by (induction bs rule: sextets.induct) auto

lemma octet_1: "(a::nat) < 256 \<Longrightarrow> (a div 4) * 4 + ((a mod 4) * 16) div 16 = a"
  by simp
lemma octet_2: "(b::nat) < 256 \<Longrightarrow> (a div 4) * 4 + ((a mod 4) * 16 + b div 16) div 16 = a"
proof -
  assume "b < 256"
  then have "b div 16 < 16" by simp
  then have "((a mod 4) * 16 + b div 16) div 16 = a mod 4" by simp
  then show ?thesis by simp
qed
lemma octet_3: "(b::nat) < 256 \<Longrightarrow> (((a mod 4) * 16 + b div 16) mod 16) * 16 + ((b mod 16) * 4) div 4 = b"
proof -
  assume "b < 256"
  then have "b div 16 < 16" by simp
  then have "((a mod 4) * 16 + b div 16) mod 16 = b div 16" by simp
  then show ?thesis by simp
qed
lemma octet_4: "(b::nat) < 256 \<Longrightarrow> (c::nat) < 256 \<Longrightarrow> (((a mod 4) * 16 + b div 16) mod 16) * 16 + ((b mod 16) * 4 + c div 64) div 4 = b"
proof -
  assume "b < 256" "c < 256"
  then have "b div 16 < 16" "c div 64 < 4" by simp_all
  then have "((a mod 4) * 16 + b div 16) mod 16 = b div 16" "((b mod 16) * 4 + c div 64) div 4 = b mod 16" by simp_all
  then show ?thesis by simp
qed
lemma octet_5: "(c::nat) < 256 \<Longrightarrow> (((b mod 16) * 4 + c div 64) mod 4) * 64 + c mod 64 = c"
proof -
  assume "c < 256"
  then have "c div 64 < 4" by simp
  then have "((b mod 16) * 4 + c div 64) mod 4 = c div 64" by simp
  then show ?thesis by simp
qed

lemma decode_sextets_inverse:
  "\<forall>x \<in> set bs. x < 256 \<Longrightarrow> decode_sextets (sextets bs) = bs"
proof (induction bs rule: sextets.induct)
  case (1 a b c rest)
  then have "a < 256" "b < 256" "c < 256" by simp_all
  with 1 show ?case by (simp add: octet_2 octet_4 octet_5)
next
  case (2 a b)
  then have "a < 256" "b < 256" by simp_all
  then show ?case by (simp add: octet_2 octet_3)
next
  case (3 a)
  then show ?case by (simp add: octet_1)
qed simp

lemma encode_octets_sextets:
  "encode_octets bs = map base64_char (sextets bs) @ padding bs"
  by (induction bs rule: sextets.induct) simp_all


lemma padding_cases:
  "(padding bs = [] \<and> length (sextets bs) mod 4 = 0)
   \<or> (padding bs = ''=='' \<and> length (sextets bs) mod 4 = 2)
   \<or> (padding bs = ''='' \<and> length (sextets bs) mod 4 = 3)"
  by (induction bs rule: sextets.induct) simp_all

lemma strip_padding_two:
  "(length xs + 2) mod 4 = 0 \<Longrightarrow> strip_padding (xs @ ''=='') = xs"
  by (simp add: strip_padding_def)

lemma strip_padding_one:
  "(length xs + 2) mod 4 = 0 \<Longrightarrow> c \<noteq> CHR ''='' \<Longrightarrow>
     strip_padding (xs @ [c] @ ''='') = xs @ [c]"
  by (simp add: strip_padding_def)

lemma strip_padding_none:
  "c \<noteq> CHR ''='' \<Longrightarrow> strip_padding (xs @ [c]) = xs @ [c]"
  by (simp add: strip_padding_def split: list.splits)

lemma strip_padding_Nil: "strip_padding [] = []"
  by (simp add: strip_padding_def)

lemma strip_padding_encoded:
  assumes "\<forall>s \<in> set sx. s < 64"
    and "(pad = [] \<and> length sx mod 4 = 0) \<or> (pad = ''=='' \<and> length sx mod 4 = 2)
         \<or> (pad = ''='' \<and> length sx mod 4 = 3)"
  shows "strip_padding (map base64_char sx @ pad) = map base64_char sx"
proof (cases sx rule: rev_cases)
  case Nil
  with assms(2) show ?thesis by (auto simp: strip_padding_Nil)
next
  case (snoc ys y)
  with assms(1) have ne: "base64_char y \<noteq> CHR ''=''" by (simp add: base64_char_not_pad)
  from assms(2) show ?thesis
  proof (elim disjE conjE)
    assume "pad = []" "length sx mod 4 = 0"
    with snoc ne show ?thesis by (simp add: strip_padding_none)
  next
    assume p: "pad = ''==''" "length sx mod 4 = 2"
    then have "(length (map base64_char sx) + 2) mod 4 = 0" by simp presburger
    from strip_padding_two [OF this] p show ?thesis by simp
  next
    assume p: "pad = ''=''" "length sx mod 4 = 3"
    with snoc have "(length (map base64_char ys) + 2) mod 4 = 0" by simp presburger
    from strip_padding_one [OF this ne] p snoc show ?thesis by simp
  qed
qed

lemma those_values:
  "\<forall>s \<in> set sx. s < 64 \<Longrightarrow> those (map (base64_value \<circ> base64_char) sx) = Some sx"
  by (induction sx) (simp_all add: base64_value_char)

lemma encoded_no_space:
  assumes "\<forall>x \<in> set bs. x < 256"
  shows "filter (\<lambda>c. \<not> is_ascii_whitespace c) (encode_octets bs) = encode_octets bs"
proof -
  have "\<forall>c \<in> set (map base64_char (sextets bs)). \<not> is_ascii_whitespace c"
    using sextets_bound [OF assms] by (auto simp: base64_char_not_space)
  moreover have "\<forall>c \<in> set (padding bs). \<not> is_ascii_whitespace c"
    using padding_cases [of bs] pad_not_space by auto
  ultimately show ?thesis
    unfolding encode_octets_sextets by (simp add: filter_id_conv)
qed

lemma atob_encode_octets:
  assumes "\<forall>x \<in> set bs. x < 256"
  shows "atob (encode_octets bs) = Inr bs"
proof -
  note sb = sextets_bound [OF assms]
  have st: "strip_padding (encode_octets bs) = map base64_char (sextets bs)"
    unfolding encode_octets_sextets by (rule strip_padding_encoded [OF sb padding_cases])
  have len: "length (sextets bs) mod 4 \<noteq> 1" using padding_cases [of bs] by auto
  show ?thesis
    using len
    by (simp add: atob_def encoded_no_space [OF assms] st those_values [OF sb]
          decode_sextets_inverse [OF assms])
qed

lemma base64_roundtrip_aux:
  "\<exists>text. arrayBufferToBase64 b = Inr text \<and> base64ToArrayBuffer text = Inr b"
proof -
  have small: "\<forall>x \<in> set (map unat b). x < 256"
  proof
    fix x assume "x \<in> set (map unat b)"
    then obtain y :: byte where "x = unat y" by auto
    moreover have "unat y < 2 ^ LENGTH(8)" by (rule unsigned_less)
    ultimately show "x < 256" by simp
  qed
  then have "\<not> list_ex (\<lambda>c. 255 < c) (map unat b)" by (auto simp: list_ex_iff)
  then have e: "arrayBufferToBase64 b = Inr (encode_octets (map unat b))"
    by (simp add: arrayBufferToBase64_def btoa_def)
  have "map (\<lambda>c. (of_nat c :: byte)) (map unat b) = b" by (simp add: map_idI)
  then have "base64ToArrayBuffer (encode_octets (map unat b)) = Inr b"
    by (simp add: base64ToArrayBuffer_def atob_encode_octets [OF small])
  with e show ?thesis by blast
qed

text \<open>
  Claim C10. For every byte buffer, \<^verbatim>\<open>arrayBufferToBase64\<close> returns a text (it never
  throws) and \<^verbatim>\<open>base64ToArrayBuffer\<close> of that text is the buffer again.
\<close>

theorem C10_base64_roundtrip:
  "\<exists>text. arrayBufferToBase64 b = Inr text \<and> base64ToArrayBuffer text = Inr b"
  by (rule base64_roundtrip_aux)

theorem C10_base64_roundtrip_witness:
  "arrayBufferToBase64 [72, 105, 33, 255] = Inr ''SGkh/w==''
   \<and> base64ToArrayBuffer ''SGkh/w=='' = Inr [72, 105, 33, 255]"
proof -
  have e: "arrayBufferToBase64 [72, 105, 33, 255] = Inr ''SGkh/w==''" by code_simp
  from C10_base64_roundtrip [of "[72, 105, 33, 255]"] e show ?thesis by auto
qed

section \<open>Properties of the application\<close>

lemma show_nat_1000: "show_nat 1000 = ''1000''"
  by code_simp

lemma stopPeriodicImageSending_status:
  "statusText (stopPeriodicImageSending st) = statusText st
   \<and> statusIsError (stopPeriodicImageSending st) = statusIsError st"
  by (simp add: stopPeriodicImageSending_def clearInterval_def)

lemma cleanup_status:
  "statusText (cleanupAfterErrorOrClose False st) =
     (if \<not> includes_string (toLowerCase (statusText st)) ''error''
         \<and> \<not> includes_string (toLowerCase (statusText st)) ''disconnect''
         \<and> statusText st \<noteq> ''Call ended.''
      then ''Ready to talk or Upload Image'' else statusText st)
   \<and> statusIsError (cleanupAfterErrorOrClose False st) =
     (if \<not> includes_string (toLowerCase (statusText st)) ''error''
         \<and> \<not> includes_string (toLowerCase (statusText st)) ''disconnect''
         \<and> statusText st \<noteq> ''Call ended.''
      then False else statusIsError st)"
  by (simp add: cleanupAfterErrorOrClose_def Let_def stopPeriodicImageSending_status
        cleanupAudioNodes_def clearAudioQueueAndStopPlayback_def updateStatus_def)

lemma call_ended_kept:
  "\<not> includes_string (toLowerCase ''Call ended.'') ''error''"
  "\<not> includes_string (toLowerCase ''Call ended.'') ''disconnect''"
  by code_simp+

lemma disconnected_kept:
  "includes_string (toLowerCase ''Disconnected.'') ''disconnect''"
  "includes_string (toLowerCase ''Disconnected unexpectedly (Code: 1000)'') ''disconnect''"
  by code_simp+

lemma onclose_1000:
  "statusText (session_onclose 1000 wasClean st) =
     (if \<not> isRecording st then ''Call ended.''
      else if wasClean then ''Disconnected.''
      else ''Disconnected unexpectedly (Code: 1000)'')
   \<and> statusIsError (session_onclose 1000 wasClean st) = (isRecording st \<and> \<not> wasClean)"
  by (simp add: session_onclose_def cleanup_status updateStatus_def show_nat_1000
        call_ended_kept disconnected_kept)

lemma playNext_empty:
  "audioQueue st = [] \<Longrightarrow>
   playNextInQueue running st =
     (if \<not> isRecording st \<and> isSetupComplete st
      then updateStatus ''Ready to talk or Upload Image'' False (st\<lparr>isPlayingAudio := False\<rparr>)
      else if isRecording st then updateStatus ''Listening...'' False (st\<lparr>isPlayingAudio := False\<rparr>)
      else st\<lparr>isPlayingAudio := False\<rparr>)"
  by (subst playNextInQueue.simps) (simp add: Let_def)

lemma playNext_short:
  "audioQueue st = buf # rest \<Longrightarrow> length buf < 2 \<Longrightarrow>
   playNextInQueue running st =
     playNextInQueue running (st\<lparr>audioQueue := rest, isPlayingAudio := False\<rparr>)"
  by (subst playNextInQueue.simps) (simp add: Let_def)

lemma playNext_wait:
  "audioQueue st = buf # rest \<Longrightarrow> 2 \<le> length buf \<Longrightarrow> \<not> (audioContext st \<and> running) \<Longrightarrow>
   playNextInQueue running st =
     st\<lparr>isPlayingAudio := True, audioQueue := rest,
        pendingPlayback := pendingPlayback st @ [buf]\<rparr>"
  by (subst playNextInQueue.simps) (auto simp: Let_def)

lemma playNext_play:
  "audioQueue st = buf # rest \<Longrightarrow> 2 \<le> length buf \<Longrightarrow> audioContext st \<Longrightarrow> running \<Longrightarrow>
   playNextInQueue running st =
     play_buffer running buf (st\<lparr>isPlayingAudio := True, audioQueue := rest\<rparr>)"
  by (subst playNextInQueue.simps) (auto simp: Let_def)

lemma play_buffer_odd:
  "odd (length buf) \<Longrightarrow>
   play_buffer running buf st =
     playNextInQueue running
       ((updateStatus (''Error playing audio: '' @ int16_length_error) True st)
          \<lparr>isPlayingAudio := False\<rparr>)"
  by (subst play_buffer.simps) simp

lemma play_buffer_even:
  "even (length buf) \<Longrightarrow>
   play_buffer running buf st =
     updateStatus ''Playing Gemini response...'' False
       (st\<lparr>startedSources := startedSources st @ [buf],
            playingSources := playingSources st @ [buf]\<rparr>)"
  by (subst play_buffer.simps) simp


lemma playNext_order:
  "idle st \<Longrightarrow>
     playback_inv (playNextInQueue running st)
     \<and> queue_order (playNextInQueue running st) = queue_order st"
proof (induction "length (audioQueue st)" arbitrary: st rule: less_induct)
  case less
  show ?case
  proof (cases "audioQueue st")
    case Nil
    with less.prems show ?thesis
      by (auto simp: playNext_empty idle_def playback_inv_def updateStatus_def queue_order_def)
  next
    case (Cons b rest)
    show ?thesis
    proof (cases "length b < 2")
      case True
      then have np: "\<not> playable b" by (simp add: playable_def)
      let ?st = "st\<lparr>audioQueue := rest, isPlayingAudio := False\<rparr>"
      have i: "idle ?st" using less.prems by (simp add: idle_def)
      have l: "length (audioQueue ?st) < length (audioQueue st)" using Cons by simp
      have q: "queue_order ?st = queue_order st"
        using np Cons less.prems by (simp add: queue_order_def idle_def)
      from less.hyps [OF l i] q show ?thesis
        by (simp add: playNext_short [OF Cons True])
    next
      case False
      then have ge: "2 \<le> length b" by simp
      show ?thesis
      proof (cases "audioContext st \<and> running")
        case False
        with ge Cons less.prems show ?thesis
          by (auto simp: playNext_wait [OF Cons ge] idle_def playback_inv_def queue_order_def)
      next
        case True
        then have c: "audioContext st" and r: "running" by simp_all
        note pl = playNext_play [OF Cons ge c r]
        show ?thesis
        proof (cases "odd (length b)")
          case True
          then have np: "\<not> playable b" by (simp add: playable_def)
          let ?st = "(updateStatus (''Error playing audio: '' @ int16_length_error) True
                        (st\<lparr>isPlayingAudio := True, audioQueue := rest\<rparr>))
                       \<lparr>isPlayingAudio := False\<rparr>"
          have i: "idle ?st" using less.prems by (simp add: idle_def updateStatus_def)
          have l: "length (audioQueue ?st) < length (audioQueue st)"
            using Cons by (simp add: updateStatus_def)
          have q: "queue_order ?st = queue_order st"
            using np Cons less.prems by (simp add: queue_order_def idle_def updateStatus_def)
          from less.hyps [OF l i] q show ?thesis
            by (simp add: pl play_buffer_odd [OF True])
        next
          case False
          then have e: "even (length b)" by simp
          with ge have p: "playable b" by (simp add: playable_def)
          from less.prems Cons p show ?thesis
            by (simp add: pl play_buffer_even [OF e] updateStatus_def idle_def
                  playback_inv_def queue_order_def)
        qed
      qed
    qed
  qed
qed

lemma play_buffer_order:
  assumes "idle st" and "2 \<le> length buf" and "isPlayingAudio st"
  shows "playback_inv (play_buffer running buf st)
     \<and> queue_order (play_buffer running buf st)
         = startedSources st @ filter playable (buf # audioQueue st)"
proof (cases "odd (length buf)")
  case True
  then have np: "\<not> playable buf" by (simp add: playable_def)
  let ?st = "(updateStatus (''Error playing audio: '' @ int16_length_error) True st)
               \<lparr>isPlayingAudio := False\<rparr>"
  have i: "idle ?st" using assms(1) by (simp add: idle_def updateStatus_def)
  have q: "queue_order ?st = startedSources st @ filter playable (buf # audioQueue st)"
    using np assms(1) by (simp add: queue_order_def idle_def updateStatus_def)
  from playNext_order [OF i, of running] q show ?thesis
    by (simp add: play_buffer_odd [OF True])
next
  case False
  then have e: "even (length buf)" by simp
  with assms(2) have p: "playable buf" by (simp add: playable_def)
  from assms(1) assms(3) p show ?thesis
    by (simp add: play_buffer_even [OF e] updateStatus_def idle_def
          playback_inv_def queue_order_def)
qed

lemma enqueueAudio_order:
  assumes "playback_inv st"
  shows "playback_inv (enqueueAudio running buf st)
     \<and> queue_order (enqueueAudio running buf st) = queue_order st @ filter playable [buf]"
proof (cases "isPlayingAudio st")
  case True
  with assms show ?thesis
    by (simp add: enqueueAudio_def Let_def playback_inv_def queue_order_def)
next
  case False
  let ?st = "st\<lparr>audioQueue := audioQueue st @ [buf]\<rparr>"
  from False assms have i: "idle ?st" by (simp add: idle_def playback_inv_def)
  have q: "queue_order ?st = queue_order st @ filter playable [buf]"
    by (simp add: queue_order_def)
  from playNext_order [OF i, of running] q False show ?thesis
    by (simp add: enqueueAudio_def Let_def)
qed

lemma source_onended_order:
  assumes "playback_inv st"
  shows "playback_inv (source_onended running st)
     \<and> queue_order (source_onended running st) = queue_order st"
proof (cases "playingSources st")
  case Nil
  with assms show ?thesis by (simp add: source_onended_def)
next
  case (Cons s others)
  let ?st = "st\<lparr>playingSources := others\<rparr>"
  from Cons assms have i: "idle ?st"
    by (auto simp: idle_def playback_inv_def split: if_splits)
  have q: "queue_order ?st = queue_order st" by (simp add: queue_order_def)
  from playNext_order [OF i, of running] q Cons show ?thesis
    by (simp add: source_onended_def)
qed

lemma initializeAudioSystem_playback:
  "playingSources (snd (initializeAudioSystem outcome st)) = playingSources st
   \<and> pendingPlayback (snd (initializeAudioSystem outcome st)) = pendingPlayback st
   \<and> audioQueue (snd (initializeAudioSystem outcome st)) = audioQueue st
   \<and> startedSources (snd (initializeAudioSystem outcome st)) = startedSources st
   \<and> isPlayingAudio (snd (initializeAudioSystem outcome st)) = isPlayingAudio st"
  by (cases outcome) (simp_all add: initializeAudioSystem_def updateStatus_def)

lemma resume_order:
  assumes "playback_inv st"
  shows "playback_inv (playNextInQueue_resume outcome running st)
     \<and> queue_order (playNextInQueue_resume outcome running st) = queue_order st"
proof (cases "pendingPlayback st")
  case Nil
  with assms show ?thesis by (simp add: playNextInQueue_resume_def)
next
  case (Cons buf waiting)
  let ?st0 = "st\<lparr>pendingPlayback := waiting\<rparr>"
  obtain ok st1 where init: "initializeAudioSystem outcome ?st0 = (ok, st1)"
    by (cases "initializeAudioSystem outcome ?st0")
  from Cons assms have w: "waiting = []" "playingSources st = []" "isPlayingAudio st"
    "2 \<le> length buf"
    by (auto simp: playback_inv_def split: if_splits)
  from initializeAudioSystem_playback [of outcome ?st0] init w
  have f: "playingSources st1 = []" "pendingPlayback st1 = []" "audioQueue st1 = audioQueue st"
    "startedSources st1 = startedSources st" "isPlayingAudio st1"
    by simp_all
  have q0: "queue_order st = startedSources st @ filter playable (buf # audioQueue st)"
    using Cons w by (simp add: queue_order_def)
  show ?thesis
  proof (cases "\<not> ok \<or> \<not> audioContext st1")
    case True
    with Cons init f q0 show ?thesis
      by (auto simp: playNextInQueue_resume_def updateStatus_def playback_inv_def queue_order_def)
  next
    case False
    from f have i: "idle st1" by (simp add: idle_def)
    from play_buffer_order [OF i w(4) f(5), of running] f q0 False Cons init show ?thesis
      by (simp add: playNextInQueue_resume_def)
  qed
qed

lemma playback_step_order:
  assumes "playback_inv st"
  shows "playback_inv (playback_step e st)
     \<and> queue_order (playback_step e st) = queue_order st @ filter playable (enqueued [e])"
  using enqueueAudio_order [OF assms] source_onended_order [OF assms] resume_order [OF assms]
  by (cases e) simp_all

lemma enqueued_append: "enqueued (xs @ ys) = enqueued xs @ enqueued ys"
  by (induction xs rule: enqueued.induct) simp_all

lemma playback_run_order:
  assumes "playback_inv st"
  shows "playback_inv (playback_run events st)
     \<and> queue_order (playback_run events st) = queue_order st @ filter playable (enqueued events)"
  using assms
proof (induction events arbitrary: st)
  case Nil
  then show ?case by (simp add: playback_run_def)
next
  case (Cons e events)
  from playback_step_order [OF Cons.prems, of e]
  have i: "playback_inv (playback_step e st)"
    and q: "queue_order (playback_step e st) = queue_order st @ filter playable (enqueued [e])"
    by simp_all
  have en: "enqueued (e # events) = enqueued [e] @ enqueued events"
    using enqueued_append [of "[e]" events] by simp
  from Cons.IH [OF i] q show ?case
    by (simp add: playback_run_def en del: enqueued.simps)
qed

lemma playback_inv_one:
  "playback_inv st \<Longrightarrow> length (playingSources st) \<le> 1
     \<and> (playingSources st \<noteq> [] \<longrightarrow> isPlayingAudio st)"
  by (auto simp: playback_inv_def split: if_splits)

lemma new_app_playback: "playback_inv new_GeminiLiveVoiceApp"
  "queue_order new_GeminiLiveVoiceApp = []"
  by (simp_all add: playback_inv_def queue_order_def new_GeminiLiveVoiceApp_def)


lemma updateStatus_view [simp]:
  "timer_view (updateStatus m e st) = timer_view st"
  "audioContext (updateStatus m e st) = audioContext st"
  by (simp_all add: timer_view_def updateStatus_def)


text \<open>
  The playback functions write the queue, the flag, the sources, the parked buffers and the
  status line, and nothing else: whatever does not depend on these is unchanged.
\<close>

lemma playNext_frame:
  fixes f :: "voice_app \<Rightarrow> 'a"
  assumes a1: "\<And>st v. f (st\<lparr>isPlayingAudio := v\<rparr>) = f st"
    and a2: "\<And>st v. f (st\<lparr>audioQueue := v\<rparr>) = f st"
    and a3: "\<And>st v. f (st\<lparr>statusText := v\<rparr>) = f st"
    and a4: "\<And>st v. f (st\<lparr>statusIsError := v\<rparr>) = f st"
    and a5: "\<And>st v. f (st\<lparr>pendingPlayback := v\<rparr>) = f st"
    and a6: "\<And>st v. f (st\<lparr>startedSources := v\<rparr>) = f st"
    and a7: "\<And>st v. f (st\<lparr>playingSources := v\<rparr>) = f st"
  shows "f (playNextInQueue running st) = f st"
proof (induction "length (audioQueue st)" arbitrary: st rule: less_induct)
  case less
  have us: "f (updateStatus m e s) = f s" for m e s
    by (simp add: updateStatus_def a3 a4)
  show ?case
  proof (cases "audioQueue st")
    case Nil
    then show ?thesis by (simp add: playNext_empty us a1)
  next
    case (Cons b rest)
    show ?thesis
    proof (cases "length b < 2")
      case True
      let ?st = "st\<lparr>audioQueue := rest, isPlayingAudio := False\<rparr>"
      have l: "length (audioQueue ?st) < length (audioQueue st)" using Cons by simp
      from less.hyps [OF l] show ?thesis
        by (simp add: playNext_short [OF Cons True] a1 a2)
    next
      case False
      then have ge: "2 \<le> length b" by simp
      show ?thesis
      proof (cases "audioContext st \<and> running")
        case False
        then show ?thesis by (simp add: playNext_wait [OF Cons ge] a1 a2 a5)
      next
        case True
        then have c: "audioContext st" and r: "running" by simp_all
        note pl = playNext_play [OF Cons ge c r]
        show ?thesis
        proof (cases "odd (length b)")
          case True
          let ?st = "(updateStatus (''Error playing audio: '' @ int16_length_error) True
                        (st\<lparr>isPlayingAudio := True, audioQueue := rest\<rparr>))
                       \<lparr>isPlayingAudio := False\<rparr>"
          have l: "length (audioQueue ?st) < length (audioQueue st)"
            using Cons by (simp add: updateStatus_def)
          have "f ?st = f st" by (simp add: us a1 a2)
          with less.hyps [OF l] show ?thesis
            by (simp add: pl play_buffer_odd [OF True])
        next
          case False
          then have e: "even (length b)" by simp
          show ?thesis by (simp add: pl play_buffer_even [OF e] us a1 a2 a6 a7)
        qed
      qed
    qed
  qed
qed


lemma playNext_view:
  "timer_fields (playNextInQueue running st) = timer_fields st"
  by (rule playNext_frame) (simp_all add: timer_fields_def timer_view_def)





lemma enqueueAudio_view [simp]:
  "timer_fields (enqueueAudio running buf st) = timer_fields st"
proof -
  have "timer_fields (st\<lparr>audioQueue := audioQueue st @ [buf]\<rparr>) = timer_fields st"
    by (simp add: timer_fields_def timer_view_def)
  then show ?thesis by (simp add: enqueueAudio_def Let_def playNext_view)
qed


lemma handle_part_view [simp]:
  "timer_fields (handle_part running part st) = timer_fields st"
  by (simp add: handle_part_def split: sum.splits)


lemma initializeAudioSystem_fields:
  "timer_view (snd (initializeAudioSystem outcome st)) = timer_view st
   \<and> (audioContext st \<longrightarrow> audioContext (snd (initializeAudioSystem outcome st)))
   \<and> (fst (initializeAudioSystem outcome st)
        \<longrightarrow> audioContext (snd (initializeAudioSystem outcome st)))"
  by (cases outcome; cases "audioContext st")
     (simp_all add: initializeAudioSystem_def updateStatus_def timer_view_def)



lemma initializeAudioSystem_recording:
  "isRecording (snd (initializeAudioSystem outcome st)) = isRecording st"
  using initializeAudioSystem_fields [of outcome st] by (simp add: timer_view_def)


lemma stopPeriodicImageSending_inv:
  assumes "timer_inv st"
  shows "intervals (stopPeriodicImageSending st) = []
       \<and> imageSendIntervalId (stopPeriodicImageSending st) = None
       \<and> isRecording (stopPeriodicImageSending st) = isRecording st
       \<and> session (stopPeriodicImageSending st) = session st
       \<and> isSetupComplete (stopPeriodicImageSending st) = isSetupComplete st
       \<and> audioContext (stopPeriodicImageSending st) = audioContext st"
  using assms
  by (cases "imageSendIntervalId st")
     (auto simp: stopPeriodicImageSending_def timer_inv_def truthy_number_def clearInterval_def
        option_or_def)





















subsection \<open>The claims about the application\<close>

text \<open>
  The playback queue without a teardown. From a state between two events in which a set
  \<^verbatim>\<open>isPlayingAudio\<close> flag stands for exactly one buffer in flight, after any sequence of
  enqueues, ends of playback and settlings of the audio system: at most one buffer source
  is playing; the flag is set exactly when a buffer is in flight (playing, or waiting for
  the audio system); and the buffers started so far, followed by the playable ones still
  waiting, are the playable buffers in the order they were enqueued.
\<close>

lemma playback_fifo:
  assumes "playback_inv st"
  shows "length (playingSources (playback_run events st)) \<le> 1
       \<and> (isPlayingAudio (playback_run events st)
            \<longleftrightarrow> playingSources (playback_run events st) \<noteq> []
                \<or> pendingPlayback (playback_run events st) \<noteq> [])
       \<and> startedSources (playback_run events st)
           @ filter playable (pendingPlayback (playback_run events st)
                              @ audioQueue (playback_run events st))
         = startedSources st
             @ filter playable (pendingPlayback st @ audioQueue st @ enqueued events)"
proof -
  from playback_run_order [OF assms, of events]
  have i: "playback_inv (playback_run events st)"
    and q: "queue_order (playback_run events st)
              = queue_order st @ filter playable (enqueued events)" by simp_all
  from i have "length (playingSources (playback_run events st)) \<le> 1
       \<and> (isPlayingAudio (playback_run events st)
            \<longleftrightarrow> playingSources (playback_run events st) \<noteq> []
                \<or> pendingPlayback (playback_run events st) \<noteq> [])"
    by (auto simp: playback_inv_def split: if_splits)
  with q show ?thesis by (simp add: queue_order_def)
qed

lemma playback_fifo_example:
  "playback_inv new_GeminiLiveVoiceApp
   \<and> startedSources
        (playback_run [Enqueue False [1, 0], InitSettled AudioReady True, Enqueue True [2, 0], Ended True,
                       Enqueue True [3, 0], Ended True, Ended True] new_GeminiLiveVoiceApp)
      = [[1, 0], [2, 0], [3, 0]]
   \<and> length (playingSources
        (playback_run [Enqueue False [1, 0], InitSettled AudioReady True, Enqueue True [2, 0], Ended True,
                       Enqueue True [3, 0], Ended True, Ended True] new_GeminiLiveVoiceApp))
      \<le> 1"
proof -
  have s: "startedSources
        (playback_run [Enqueue False [1, 0], InitSettled AudioReady True, Enqueue True [2, 0], Ended True,
                       Enqueue True [3, 0], Ended True, Ended True] new_GeminiLiveVoiceApp)
      = [[1, 0], [2, 0], [3, 0]]" by code_simp
  from playback_fifo [OF new_app_playback(1),
      of "[Enqueue False [1, 0], InitSettled AudioReady True, Enqueue True [2, 0], Ended True,
           Enqueue True [3, 0], Ended True, Ended True]"] s new_app_playback(1)
  show ?thesis by blast
qed

text \<open>
  Claim C5, at the input where the code departs from it. The buffer \<open>[1, 0]\<close> is playing
  when the call is ended and the session closes. The teardown
  (\<^verbatim>\<open>clearAudioQueueAndStopPlayback\<close>) empties the queue and clears \<^verbatim>\<open>isPlayingAudio\<close>, but
  the buffer source is not stopped: it plays on with the flag clear. The next buffer that
  arrives, \<open>[2, 0]\<close> on the second session, finds the flag clear and is started at once: two
  sources play at the same time. A third buffer is then queued behind the second, and the
  end of the first source starts it while the second still plays.
\<close>

theorem C5_overlap_after_teardown:
  "playingSources (run playing_trace new_GeminiLiveVoiceApp) = [[1, 0]]
   \<and> isPlayingAudio (run playing_trace new_GeminiLiveVoiceApp)
   \<and> playingSources (run teardown_trace new_GeminiLiveVoiceApp) = [[1, 0]]
   \<and> isPlayingAudio (run teardown_trace new_GeminiLiveVoiceApp) = False
   \<and> audioQueue (run teardown_trace new_GeminiLiveVoiceApp) = []
   \<and> playingSources (run overlap_trace new_GeminiLiveVoiceApp) = [[1, 0], [2, 0]]
   \<and> isPlayingAudio (run overlap_trace new_GeminiLiveVoiceApp)
   \<and> playingSources
        (run (overlap_trace @ [SessionMessage True (audio_message ''AwA=''), SourceEnded True])
           new_GeminiLiveVoiceApp)
      = [[2, 0], [3, 0]]"
proof -
  have a: "playingSources (run playing_trace new_GeminiLiveVoiceApp) = [[1, 0]]"
    "isPlayingAudio (run playing_trace new_GeminiLiveVoiceApp)"
    by code_simp+
  have b: "playingSources (run teardown_trace new_GeminiLiveVoiceApp) = [[1, 0]]"
    "isPlayingAudio (run teardown_trace new_GeminiLiveVoiceApp) = False"
    "audioQueue (run teardown_trace new_GeminiLiveVoiceApp) = []"
    by code_simp+
  have c: "playingSources (run overlap_trace new_GeminiLiveVoiceApp) = [[1, 0], [2, 0]]"
    "isPlayingAudio (run overlap_trace new_GeminiLiveVoiceApp)"
    by code_simp+
  have d: "playingSources
        (run (overlap_trace @ [SessionMessage True (audio_message ''AwA=''), SourceEnded True])
           new_GeminiLiveVoiceApp)
      = [[2, 0], [3, 0]]"
    by code_simp
  from a b c d show ?thesis by simp
qed

theorem C5_overlap_after_teardown_witness:
  "length (playingSources (run overlap_trace new_GeminiLiveVoiceApp)) = 2
   \<and> isPlayingAudio (run teardown_trace new_GeminiLiveVoiceApp) = False"
  using C5_overlap_after_teardown by simp

text \<open>
  Claim C6, at the input where the code departs from it. After
  \<open>stale_handler_trace\<close> the application holds session 2, records, has the worklet's
  message handler installed and has not received the setup acknowledgement; nothing was
  sent yet. A PCM frame of the worklet is then encoded and handed to
  \<^verbatim>\<open>sendRealtimeInput\<close>: the handler tests the session and \<^verbatim>\<open>isRecording\<close>, not
  \<^verbatim>\<open>isSetupComplete\<close>.
\<close>

theorem C6_audio_sent_before_setup:
  "session (run stale_handler_trace new_GeminiLiveVoiceApp) = Some 2
   \<and> isRecording (run stale_handler_trace new_GeminiLiveVoiceApp)
   \<and> audioWorkletNode (run stale_handler_trace new_GeminiLiveVoiceApp)
   \<and> isSetupComplete (run stale_handler_trace new_GeminiLiveVoiceApp) = False
   \<and> sentInput (run stale_handler_trace new_GeminiLiveVoiceApp) = []
   \<and> sentInput (step (WorkletPost (WorkletPcm [1, 0]))
                  (run stale_handler_trace new_GeminiLiveVoiceApp))
      = [(2, \<lparr> data = ''AQA='', mimeType = ''audio/pcm;rate=16000'' \<rparr>)]"
proof -
  have a: "session (run stale_handler_trace new_GeminiLiveVoiceApp) = Some 2"
    "isRecording (run stale_handler_trace new_GeminiLiveVoiceApp)"
    "audioWorkletNode (run stale_handler_trace new_GeminiLiveVoiceApp)"
    "isSetupComplete (run stale_handler_trace new_GeminiLiveVoiceApp) = False"
    "sentInput (run stale_handler_trace new_GeminiLiveVoiceApp) = []"
    by code_simp+
  have m: "show_nat TARGET_SAMPLE_RATE = ''16000''"
    by (simp add: show_nat.simps TARGET_SAMPLE_RATE_def digit_char_def)
  have e: "arrayBufferToBase64 [1, 0] = Inr ''AQA=''" by code_simp
  have "sentInput (step (WorkletPost (WorkletPcm [1, 0]))
                  (run stale_handler_trace new_GeminiLiveVoiceApp))
      = [(2, \<lparr> data = ''AQA='', mimeType = ''audio/pcm;rate=16000'' \<rparr>)]"
    using a m e by (simp add: step_def worklet_onmessage_def sendRealtimeInput_def)
  with a show ?thesis by simp
qed

theorem C6_audio_sent_before_setup_witness:
  "isSetupComplete (run stale_handler_trace new_GeminiLiveVoiceApp) = False
   \<and> length (sentInput (step (WorkletPost (WorkletPcm [1, 0]))
                  (run stale_handler_trace new_GeminiLiveVoiceApp))) = 1"
  using C6_audio_sent_before_setup by simp

text \<open>
  Claim C7, as amended. For a close event with code 1000: when recording is not active the
  status is \<^verbatim>\<open>Call ended.\<close> and no error; when recording is still active the status is the
  error \<^verbatim>\<open>Disconnected unexpectedly (Code: 1000)\<close> if the close was not clean, and the plain
  \<^verbatim>\<open>Disconnected.\<close> (no error) if it was clean. The status is an error exactly when
  recording was active and the close was not clean.
\<close>

theorem C7_close_code_1000:
  "statusText (session_onclose 1000 wasClean st) =
     (if \<not> isRecording st then ''Call ended.''
      else if wasClean then ''Disconnected.''
      else ''Disconnected unexpectedly (Code: 1000)'')
   \<and> statusIsError (session_onclose 1000 wasClean st) = (isRecording st \<and> \<not> wasClean)"
  by (rule onclose_1000)

theorem C7_clean_close_counterexample:
  "isRecording (run recording_trace new_GeminiLiveVoiceApp)
   \<and> statusText (step (SessionClose 1000 True) (run recording_trace new_GeminiLiveVoiceApp))
       = ''Disconnected.''
   \<and> statusIsError (step (SessionClose 1000 True) (run recording_trace new_GeminiLiveVoiceApp))
       = False"
  by code_simp

theorem C7_close_code_1000_witness:
  "isRecording (run recording_trace new_GeminiLiveVoiceApp)
   \<and> statusText (session_onclose 1000 False (run recording_trace new_GeminiLiveVoiceApp))
       = ''Disconnected unexpectedly (Code: 1000)''
   \<and> statusIsError (session_onclose 1000 False (run recording_trace new_GeminiLiveVoiceApp))
   \<and> statusText (session_onclose 1000 True new_GeminiLiveVoiceApp) = ''Call ended.''
   \<and> statusIsError (session_onclose 1000 True new_GeminiLiveVoiceApp) = False"
proof -
  have r: "isRecording (run recording_trace new_GeminiLiveVoiceApp)" by code_simp
  have n: "isRecording new_GeminiLiveVoiceApp = False" by code_simp
  from C7_close_code_1000 [of False "run recording_trace new_GeminiLiveVoiceApp"]
    C7_close_code_1000 [of True new_GeminiLiveVoiceApp] r n
  show ?thesis by simp
qed

text \<open>
  Claim C8, as amended. A chunk of fewer than two bytes is never handed to playback:
  \<^verbatim>\<open>enqueueAudio\<close> appends it like any other chunk, and \<^verbatim>\<open>playNextInQueue\<close> drops it when it
  is at the head of the queue and takes the next chunk at once. While a buffer is in flight
  the chunk stays in the queue (one entry more) until then; with nothing in flight and an
  empty queue the queue is empty again when \<^verbatim>\<open>enqueueAudio\<close> returns, and nothing was
  started. Whatever is enqueued afterwards plays as if the chunk had never arrived.
\<close>

theorem C8_short_chunk_skipped:
  assumes "playback_inv st" and "length short < 2"
  shows "(isPlayingAudio st \<longrightarrow>
            enqueueAudio running short st = st\<lparr>audioQueue := audioQueue st @ [short]\<rparr>)
       \<and> (\<not> isPlayingAudio st \<and> audioQueue st = [] \<longrightarrow>
            audioQueue (enqueueAudio running short st) = []
            \<and> \<not> isPlayingAudio (enqueueAudio running short st)
            \<and> startedSources (enqueueAudio running short st) = startedSources st
            \<and> playingSources (enqueueAudio running short st) = playingSources st
            \<and> pendingPlayback (enqueueAudio running short st) = pendingPlayback st)
       \<and> playNextInQueue running (st\<lparr>audioQueue := short # rest\<rparr>)
           = playNextInQueue running (st\<lparr>audioQueue := rest, isPlayingAudio := False\<rparr>)
       \<and> startedSources (playback_run events (enqueueAudio running short st))
           @ filter playable
               (pendingPlayback (playback_run events (enqueueAudio running short st))
                @ audioQueue (playback_run events (enqueueAudio running short st)))
         = startedSources st
             @ filter playable (pendingPlayback st @ audioQueue st @ enqueued events)"
proof -
  have np: "\<not> playable short" using assms(2) by (simp add: playable_def)
  have a: "isPlayingAudio st \<longrightarrow>
            enqueueAudio running short st = st\<lparr>audioQueue := audioQueue st @ [short]\<rparr>"
    by (simp add: enqueueAudio_def Let_def)
  have skip: "playNextInQueue running (s\<lparr>audioQueue := short # r\<rparr>)
           = playNextInQueue running (s\<lparr>audioQueue := r, isPlayingAudio := False\<rparr>)" for s r
    using playNext_short [of "s\<lparr>audioQueue := short # r\<rparr>" short r running] assms(2) by simp
  have b: "audioQueue (enqueueAudio running short st) = []
            \<and> \<not> isPlayingAudio (enqueueAudio running short st)
            \<and> startedSources (enqueueAudio running short st) = startedSources st
            \<and> playingSources (enqueueAudio running short st) = playingSources st
            \<and> pendingPlayback (enqueueAudio running short st) = pendingPlayback st"
    if idle: "\<not> isPlayingAudio st" "audioQueue st = []"
  proof -
    have "enqueueAudio running short st
            = playNextInQueue running (st\<lparr>audioQueue := [], isPlayingAudio := False\<rparr>)"
      using idle skip [where s = st and r = "[]"] by (simp add: enqueueAudio_def Let_def)
    then show ?thesis by (simp add: playNext_empty updateStatus_def)
  qed
  from enqueueAudio_order [OF assms(1), of running short] np
  have i: "playback_inv (enqueueAudio running short st)"
    and q: "queue_order (enqueueAudio running short st) = queue_order st" by simp_all
  from playback_run_order [OF i, of events] q
  have "queue_order (playback_run events (enqueueAudio running short st))
          = queue_order st @ filter playable (enqueued events)" by simp
  then have c: "startedSources (playback_run events (enqueueAudio running short st))
           @ filter playable
               (pendingPlayback (playback_run events (enqueueAudio running short st))
                @ audioQueue (playback_run events (enqueueAudio running short st)))
         = startedSources st
             @ filter playable (pendingPlayback st @ audioQueue st @ enqueued events)"
    by (simp add: queue_order_def)
  from a b skip [where s = st and r = rest] c show ?thesis by blast
qed

theorem C8_queue_grows_counterexample:
  "length [7 :: byte] < 2
   \<and> playingSources
        (playback_run [Enqueue False [1, 0, 2, 0], InitSettled AudioReady True]
           new_GeminiLiveVoiceApp) = [[1, 0, 2, 0]]
   \<and> audioQueue
        (playback_run [Enqueue False [1, 0, 2, 0], InitSettled AudioReady True]
           new_GeminiLiveVoiceApp) = []
   \<and> audioQueue
        (playback_run [Enqueue False [1, 0, 2, 0], InitSettled AudioReady True,
                       Enqueue True [7]] new_GeminiLiveVoiceApp) = [[7]]"
  by code_simp

theorem C8_short_chunk_skipped_witness:
  "playback_inv new_GeminiLiveVoiceApp \<and> length [7 :: byte] < 2
   \<and> isPlayingAudio new_GeminiLiveVoiceApp = False
   \<and> audioQueue (enqueueAudio True [7] new_GeminiLiveVoiceApp) = []
   \<and> startedSources (enqueueAudio True [7] new_GeminiLiveVoiceApp) = []
   \<and> startedSources (playback_run [Enqueue False [1, 0], InitSettled AudioReady True]
                        (enqueueAudio True [7] new_GeminiLiveVoiceApp)) = [[1, 0]]"
proof -
  have l: "length [7 :: byte] < 2" by simp
  have n: "isPlayingAudio new_GeminiLiveVoiceApp = False"
    "audioQueue new_GeminiLiveVoiceApp = []" "startedSources new_GeminiLiveVoiceApp = []"
    by code_simp+
  have s: "startedSources (playback_run [Enqueue False [1, 0], InitSettled AudioReady True]
                        (enqueueAudio True [7] new_GeminiLiveVoiceApp)) = [[1, 0]]"
    by code_simp
  from C8_short_chunk_skipped [OF new_app_playback(1) l, of True "[]" "[Enqueue False [1, 0], InitSettled AudioReady True]"]
    n s l new_app_playback(1)
  show ?thesis by simp
qed




end
